theory Spec2Isabelle
  imports Main "HOL-Library.Multiset"
begin

section \<open>The data of controller.c\<close>

text \<open>
  The two array bounds of the source. \<open>QUEUESIZE\<close> sizes the global \<open>req_queue\<close>, which no
  function reads; \<open>BATCHSIZE\<close> sizes the batch, the \<open>col\<close> array of a row request and the
  \<open>rows\<close> array of a bank request.
\<close>

definition QUEUESIZE :: nat where
  "QUEUESIZE = 100"

definition BATCHSIZE :: nat where
  "BATCHSIZE = 5"

text \<open>
  The timing constants of the source. They are declared and never used: the function
  \<open>scheduler\<close> ends after printing the header of the schedule.
\<close>

definition tRCD :: nat where "tRCD = 14"
definition tCL :: nat where "tCL = 14"
definition tRAS :: nat where "tRAS = 28"
definition tRP :: nat where "tRP = 14"
definition tRTP :: nat where "tRTP = 8"
definition tRRD_sg :: nat where "tRRD_sg = 4"
definition tRRD_dg :: nat where "tRRD_dg = 4"
definition tFAW :: nat where "tFAW = 16"
definition tRDRD_sg :: nat where "tRDRD_sg = 7"
definition tRDRD_dg :: nat where "tRDRD_dg = 4"

text \<open>
  The three structs. A C \<open>int\<close> field is an \<open>int\<close> here: the fields of a request are only
  compared and printed, and the only arithmetic of the program is on counters that stay
  below \<open>BATCHSIZE + 1\<close>, so no operation can overflow. The fields of \<open>struct row_request\<close>
  carry the prefix \<open>r_\<close> and those of \<open>struct bank_request\<close> the prefix \<open>b_\<close>, since the
  three structs share their field names. A fixed-size array is a list of that length.
\<close>

record request =
  valid :: int
  bank_group :: int
  bank :: int
  row :: int
  col :: int

record row_request =
  r_valid :: int
  r_bank_group :: int
  r_bank :: int
  r_row :: int
  r_col :: "int list"
  r_requests :: int
  r_id :: int

record bank_request =
  b_valid :: int
  b_bank_group :: int
  b_bank :: int
  b_rows :: "int list"
  b_requests :: int

text \<open>
  The source has no error result of its own. \<open>OutOfBounds\<close> is an access outside an array,
  which is undefined behaviour in C and a result of its own here. \<open>CapacityExceeded\<close> and
  \<open>InvalidRequest\<close> are the two error results the specification names; no function below
  returns them.
\<close>

datatype error = OutOfBounds | CapacityExceeded | InvalidRequest

text \<open>
  The local arrays \<open>batch_aliased\<close> and \<open>row_conflicts\<close> are not initialised by the source.
  Every cell of such an array holds the indeterminate value \<open>junk\<close>, a parameter of the
  model.
\<close>

definition uninit_row_request :: "int \<Rightarrow> row_request" where
  "uninit_row_request junk =
     \<lparr>r_valid = junk, r_bank_group = junk, r_bank = junk, r_row = junk,
      r_col = replicate BATCHSIZE junk, r_requests = junk, r_id = junk\<rparr>"

definition uninit_bank_request :: "int \<Rightarrow> bank_request" where
  "uninit_bank_request junk =
     \<lparr>b_valid = junk, b_bank_group = junk, b_bank = junk,
      b_rows = replicate BATCHSIZE junk, b_requests = junk\<rparr>"

section \<open>The row aliaser (controller.c, lines 56 to 79)\<close>

text \<open>
  Lines 64 and 65: the column is written at index \<open>requests\<close> of the \<open>col\<close> array, and
  \<open>requests\<close> is incremented. The caller checks the index.
\<close>

definition add_column :: "row_request \<Rightarrow> int \<Rightarrow> row_request" where
  "add_column e c =
     e\<lparr>r_col := (r_col e)[nat (r_requests e) := c], r_requests := r_requests e + 1\<rparr>"

text \<open>Lines 70 to 76: the seven assignments that open the row request at \<open>row_counter\<close>.\<close>

definition new_row_request :: "row_request \<Rightarrow> request \<Rightarrow> nat \<Rightarrow> row_request" where
  "new_row_request e rq row_counter =
     e\<lparr>r_valid := 1,
       r_bank_group := bank_group rq,
       r_bank := bank rq,
       r_row := row rq,
       r_col := (r_col e)[0 := col rq],
       r_requests := 1,
       r_id := int row_counter + 1\<rparr>"

text \<open>
  The inner loop over \<open>j\<close>: the first row request with the bank group, bank and row of the
  request takes its column, and the loop breaks. The result is the flag \<open>found\<close> and the
  array.
\<close>

function alias_find ::
  "request \<Rightarrow> row_request list \<Rightarrow> nat \<Rightarrow> nat \<Rightarrow> error + (bool \<times> row_request list)" where
  "alias_find rq batch_aliased row_counter j =
     (if j < row_counter then
        (if length batch_aliased \<le> j then Inl OutOfBounds
         else if bank_group rq = r_bank_group (batch_aliased ! j)
               \<and> bank rq = r_bank (batch_aliased ! j)
               \<and> row rq = r_row (batch_aliased ! j)
         then (if 0 \<le> r_requests (batch_aliased ! j)
                 \<and> nat (r_requests (batch_aliased ! j)) < length (r_col (batch_aliased ! j))
               then Inr (True, batch_aliased[j := add_column (batch_aliased ! j) (col rq)])
               else Inl OutOfBounds)
         else alias_find rq batch_aliased row_counter (j + 1))
      else Inr (False, batch_aliased))"
  by pat_completeness auto
termination
  by (relation "measure (\<lambda>(rq, batch_aliased, row_counter, j). row_counter - j)") auto

declare alias_find.simps [simp del]

text \<open>
  The outer loop over \<open>i\<close>: a request that found no row request opens the one at index
  \<open>row_counter\<close>, with the identifier \<open>row_counter + 1\<close>. The field \<open>valid\<close> of the request is
  not read.
\<close>

function alias_loop ::
  "request list \<Rightarrow> nat \<Rightarrow> row_request list \<Rightarrow> nat \<Rightarrow> error + (row_request list \<times> nat)" where
  "alias_loop req_batch i batch_aliased row_counter =
     (if i < BATCHSIZE then
        (if length req_batch \<le> i then Inl OutOfBounds
         else case alias_find (req_batch ! i) batch_aliased row_counter 0 of
           Inl e \<Rightarrow> Inl e
         | Inr (found, aliased) \<Rightarrow>
             if \<not> found then
               (if length aliased \<le> row_counter \<or> r_col (aliased ! row_counter) = []
                then Inl OutOfBounds
                else alias_loop req_batch (i + 1)
                       (aliased[row_counter :=
                          new_row_request (aliased ! row_counter) (req_batch ! i) row_counter])
                       (row_counter + 1))
             else alias_loop req_batch (i + 1) aliased row_counter)
      else Inr (batch_aliased, row_counter))"
  by pat_completeness auto
termination
  by (relation "measure (\<lambda>(req_batch, i, batch_aliased, row_counter). BATCHSIZE - i)") auto

declare alias_loop.simps [simp del]

section \<open>The bank conflict grouper (controller.c, lines 90 to 111)\<close>

text \<open>
  Lines 98 and 99: the identifier is written at index \<open>requests\<close> of the \<open>rows\<close> array, and
  \<open>requests\<close> is incremented. The caller checks the index.
\<close>

definition add_row :: "bank_request \<Rightarrow> int \<Rightarrow> bank_request" where
  "add_row q ident =
     q\<lparr>b_rows := (b_rows q)[nat (b_requests q) := ident], b_requests := b_requests q + 1\<rparr>"

text \<open>Lines 104 to 108: the five assignments that open the bank request at \<open>bank_counter\<close>.\<close>

definition new_bank_request :: "bank_request \<Rightarrow> row_request \<Rightarrow> bank_request" where
  "new_bank_request q rr =
     q\<lparr>b_valid := 1,
       b_bank_group := r_bank_group rr,
       b_bank := r_bank rr,
       b_rows := (b_rows q)[0 := r_id rr],
       b_requests := 1\<rparr>"

text \<open>
  The inner loop over \<open>j\<close>: the first bank request with the bank group and bank of the row
  request takes its identifier, and the loop breaks.
\<close>

function bank_find ::
  "row_request \<Rightarrow> bank_request list \<Rightarrow> nat \<Rightarrow> nat \<Rightarrow> error + (bool \<times> bank_request list)" where
  "bank_find rr row_conflicts bank_counter j =
     (if j < bank_counter then
        (if length row_conflicts \<le> j then Inl OutOfBounds
         else if b_bank_group (row_conflicts ! j) = r_bank_group rr
               \<and> b_bank (row_conflicts ! j) = r_bank rr
         then (if 0 \<le> b_requests (row_conflicts ! j)
                 \<and> nat (b_requests (row_conflicts ! j)) < length (b_rows (row_conflicts ! j))
               then Inr (True, row_conflicts[j := add_row (row_conflicts ! j) (r_id rr)])
               else Inl OutOfBounds)
         else bank_find rr row_conflicts bank_counter (j + 1))
      else Inr (False, row_conflicts))"
  by pat_completeness auto
termination
  by (relation "measure (\<lambda>(rr, row_conflicts, bank_counter, j). bank_counter - j)") auto

declare bank_find.simps [simp del]

text \<open>
  The outer loop over \<open>i\<close>, up to \<open>row_counter\<close>: a row request that found no bank request
  opens the one at index \<open>bank_counter\<close>.
\<close>

function bank_loop ::
  "row_request list \<Rightarrow> nat \<Rightarrow> nat \<Rightarrow> bank_request list \<Rightarrow> nat
     \<Rightarrow> error + (bank_request list \<times> nat)" where
  "bank_loop batch_aliased row_counter i row_conflicts bank_counter =
     (if i < row_counter then
        (if length batch_aliased \<le> i then Inl OutOfBounds
         else case bank_find (batch_aliased ! i) row_conflicts bank_counter 0 of
           Inl e \<Rightarrow> Inl e
         | Inr (found, conflicts) \<Rightarrow>
             if \<not> found then
               (if length conflicts \<le> bank_counter \<or> b_rows (conflicts ! bank_counter) = []
                then Inl OutOfBounds
                else bank_loop batch_aliased row_counter (i + 1)
                       (conflicts[bank_counter :=
                          new_bank_request (conflicts ! bank_counter) (batch_aliased ! i)])
                       (bank_counter + 1))
             else bank_loop batch_aliased row_counter (i + 1) conflicts bank_counter)
      else Inr (row_conflicts, bank_counter))"
  by pat_completeness auto
termination
  by (relation "measure (\<lambda>(batch_aliased, row_counter, i, row_conflicts, bank_counter).
        row_counter - i)") auto

declare bank_loop.simps [simp del]

section \<open>Printing\<close>

text \<open>The conversion \<open>%d\<close> of \<open>printf\<close>: a decimal numeral, with a minus sign below zero.\<close>

definition digit_char :: "nat \<Rightarrow> char" where
  "digit_char d = char_of (48 + d)"

function show_nat :: "nat \<Rightarrow> string" where
  "show_nat n = (if n < 10 then [digit_char n] else show_nat (n div 10) @ [digit_char (n mod 10)])"
  by pat_completeness auto
termination
  by (relation "measure (\<lambda>n. n)") auto

declare show_nat.simps [simp del]

definition show_int :: "int \<Rightarrow> string" where
  "show_int k = (if k < 0 then CHR ''-'' # show_nat (nat (- k)) else show_nat (nat k))"

text \<open>
  The inner printing loop, over the first \<open>requests\<close> cells of a \<open>col\<close> or \<open>rows\<close> array, each
  followed by a space. The result is the text written from index \<open>j\<close> on.
\<close>

function print_cells :: "int list \<Rightarrow> int \<Rightarrow> nat \<Rightarrow> error + string" where
  "print_cells cells requests j =
     (if int j < requests then
        (if length cells \<le> j then Inl OutOfBounds
         else case print_cells cells requests (j + 1) of
           Inl e \<Rightarrow> Inl e
         | Inr rest \<Rightarrow> Inr (show_int (cells ! j) @ '' '' @ rest))
      else Inr [])"
  by pat_completeness auto
termination
  by (relation "measure (\<lambda>(cells, requests, j). nat requests - j)") auto

declare print_cells.simps [simp del]

text \<open>The loop of lines 81 to 88, one line per row request.\<close>

function print_aliased :: "row_request list \<Rightarrow> nat \<Rightarrow> nat \<Rightarrow> error + string" where
  "print_aliased batch_aliased row_counter i =
     (if i < row_counter then
        (if length batch_aliased \<le> i then Inl OutOfBounds
         else case print_cells (r_col (batch_aliased ! i)) (r_requests (batch_aliased ! i)) 0 of
           Inl e \<Rightarrow> Inl e
         | Inr cols \<Rightarrow>
             (case print_aliased batch_aliased row_counter (i + 1) of
                Inl e \<Rightarrow> Inl e
              | Inr rest \<Rightarrow>
                  Inr (''ID '' @ show_int (r_id (batch_aliased ! i))
                       @ '': Bank Group '' @ show_int (r_bank_group (batch_aliased ! i))
                       @ '' Bank '' @ show_int (r_bank (batch_aliased ! i))
                       @ '' Row '' @ show_int (r_row (batch_aliased ! i))
                       @ '' -> Columns: '' @ cols @ ''\<newline>'' @ rest)))
      else Inr [])"
  by pat_completeness auto
termination
  by (relation "measure (\<lambda>(batch_aliased, row_counter, i). row_counter - i)") auto

declare print_aliased.simps [simp del]

text \<open>The loop of lines 113 to 120, one line per bank request, numbered from 1.\<close>

function print_conflicts :: "bank_request list \<Rightarrow> nat \<Rightarrow> nat \<Rightarrow> error + string" where
  "print_conflicts row_conflicts bank_counter i =
     (if i < bank_counter then
        (if length row_conflicts \<le> i then Inl OutOfBounds
         else case print_cells (b_rows (row_conflicts ! i)) (b_requests (row_conflicts ! i)) 0 of
           Inl e \<Rightarrow> Inl e
         | Inr rows \<Rightarrow>
             (case print_conflicts row_conflicts bank_counter (i + 1) of
                Inl e \<Rightarrow> Inl e
              | Inr rest \<Rightarrow>
                  Inr (show_int (int i + 1)
                       @ '': Bank Group '' @ show_int (b_bank_group (row_conflicts ! i))
                       @ '' Bank '' @ show_int (b_bank (row_conflicts ! i))
                       @ '' Row(s) '' @ rows @ ''\<newline>'' @ rest)))
      else Inr [])"
  by pat_completeness auto
termination
  by (relation "measure (\<lambda>(row_conflicts, bank_counter, i). bank_counter - i)") auto

declare print_conflicts.simps [simp del]

section \<open>The function scheduler (controller.c, lines 53 to 124)\<close>

text \<open>The two stages, each started on its uninitialised local array.\<close>

definition row_aliaser :: "int \<Rightarrow> request list \<Rightarrow> error + (row_request list \<times> nat)" where
  "row_aliaser junk req_batch =
     alias_loop req_batch 0 (replicate BATCHSIZE (uninit_row_request junk)) 0"

definition bank_grouper ::
  "int \<Rightarrow> row_request list \<Rightarrow> nat \<Rightarrow> error + (bank_request list \<times> nat)" where
  "bank_grouper junk batch_aliased row_counter =
     bank_loop batch_aliased row_counter 0
       (replicate row_counter (uninit_bank_request junk)) 0"

text \<open>
  What a call leaves behind: the two local arrays with their counters, and the text
  written to the standard output. The last thing the function does is to print the
  header \<open>SCHEDULE:\<close>; it issues no command.
\<close>

record outcome =
  aliased_of :: "row_request list"
  row_counter_of :: nat
  conflicts_of :: "bank_request list"
  bank_counter_of :: nat
  stdout_of :: string

definition scheduler :: "int \<Rightarrow> request list \<Rightarrow> error + outcome" where
  "scheduler junk req_batch =
     (case row_aliaser junk req_batch of
        Inl e \<Rightarrow> Inl e
      | Inr (batch_aliased, row_counter) \<Rightarrow>
     (case print_aliased batch_aliased row_counter 0 of
        Inl e \<Rightarrow> Inl e
      | Inr out_aliased \<Rightarrow>
     (case bank_grouper junk batch_aliased row_counter of
        Inl e \<Rightarrow> Inl e
      | Inr (row_conflicts, bank_counter) \<Rightarrow>
     (case print_conflicts row_conflicts bank_counter 0 of
        Inl e \<Rightarrow> Inl e
      | Inr out_conflicts \<Rightarrow>
          Inr \<lparr>aliased_of = batch_aliased, row_counter_of = row_counter,
               conflicts_of = row_conflicts, bank_counter_of = bank_counter,
               stdout_of = ''ALIASED BATCH\<newline>'' @ out_aliased
                 @ ''BANK REQUESTS BATCH\<newline>'' @ out_conflicts
                 @ ''SCHEDULE:\<newline>''\<rparr>))))"

section \<open>The function main (controller.c, lines 126 to 161)\<close>

definition main_batch :: "request list" where
  "main_batch =
     [\<lparr>valid = 1, bank_group = 0, bank = 0, row = 1, col = 6\<rparr>,
      \<lparr>valid = 1, bank_group = 0, bank = 0, row = 2, col = 5\<rparr>,
      \<lparr>valid = 1, bank_group = 0, bank = 0, row = 1, col = 3\<rparr>,
      \<lparr>valid = 1, bank_group = 0, bank = 0, row = 4, col = 4\<rparr>,
      \<lparr>valid = 1, bank_group = 2, bank = 1, row = 2, col = 2\<rparr>]"

definition main :: "int \<Rightarrow> error + outcome" where
  "main junk = scheduler junk main_batch"

section \<open>Counting loop iterations\<close>

text \<open>
  For each loop of \<open>scheduler\<close>, the number of times its body runs, the bodies of the loops
  inside it included. Each function follows the recursion of the loop it counts.
\<close>

function T_alias_find :: "request \<Rightarrow> row_request list \<Rightarrow> nat \<Rightarrow> nat \<Rightarrow> nat" where
  "T_alias_find rq batch_aliased row_counter j =
     (if j < row_counter then
        (if length batch_aliased \<le> j then 1
         else if bank_group rq = r_bank_group (batch_aliased ! j)
               \<and> bank rq = r_bank (batch_aliased ! j)
               \<and> row rq = r_row (batch_aliased ! j)
         then 1
         else 1 + T_alias_find rq batch_aliased row_counter (j + 1))
      else 0)"
  by pat_completeness auto
termination
  by (relation "measure (\<lambda>(rq, batch_aliased, row_counter, j). row_counter - j)") auto

declare T_alias_find.simps [simp del]

function T_alias_loop :: "request list \<Rightarrow> nat \<Rightarrow> row_request list \<Rightarrow> nat \<Rightarrow> nat" where
  "T_alias_loop req_batch i batch_aliased row_counter =
     (if i < BATCHSIZE then
        (if length req_batch \<le> i then 1
         else 1 + T_alias_find (req_batch ! i) batch_aliased row_counter 0
           + (case alias_find (req_batch ! i) batch_aliased row_counter 0 of
                Inl e \<Rightarrow> 0
              | Inr (found, aliased) \<Rightarrow>
                  if \<not> found then
                    (if length aliased \<le> row_counter \<or> r_col (aliased ! row_counter) = []
                     then 0
                     else T_alias_loop req_batch (i + 1)
                            (aliased[row_counter :=
                               new_row_request (aliased ! row_counter) (req_batch ! i) row_counter])
                            (row_counter + 1))
                  else T_alias_loop req_batch (i + 1) aliased row_counter))
      else 0)"
  by pat_completeness auto
termination
  by (relation "measure (\<lambda>(req_batch, i, batch_aliased, row_counter). BATCHSIZE - i)") auto

declare T_alias_loop.simps [simp del]

function T_bank_find :: "row_request \<Rightarrow> bank_request list \<Rightarrow> nat \<Rightarrow> nat \<Rightarrow> nat" where
  "T_bank_find rr row_conflicts bank_counter j =
     (if j < bank_counter then
        (if length row_conflicts \<le> j then 1
         else if b_bank_group (row_conflicts ! j) = r_bank_group rr
               \<and> b_bank (row_conflicts ! j) = r_bank rr
         then 1
         else 1 + T_bank_find rr row_conflicts bank_counter (j + 1))
      else 0)"
  by pat_completeness auto
termination
  by (relation "measure (\<lambda>(rr, row_conflicts, bank_counter, j). bank_counter - j)") auto

declare T_bank_find.simps [simp del]

function T_bank_loop ::
  "row_request list \<Rightarrow> nat \<Rightarrow> nat \<Rightarrow> bank_request list \<Rightarrow> nat \<Rightarrow> nat" where
  "T_bank_loop batch_aliased row_counter i row_conflicts bank_counter =
     (if i < row_counter then
        (if length batch_aliased \<le> i then 1
         else 1 + T_bank_find (batch_aliased ! i) row_conflicts bank_counter 0
           + (case bank_find (batch_aliased ! i) row_conflicts bank_counter 0 of
                Inl e \<Rightarrow> 0
              | Inr (found, conflicts) \<Rightarrow>
                  if \<not> found then
                    (if length conflicts \<le> bank_counter \<or> b_rows (conflicts ! bank_counter) = []
                     then 0
                     else T_bank_loop batch_aliased row_counter (i + 1)
                            (conflicts[bank_counter :=
                               new_bank_request (conflicts ! bank_counter) (batch_aliased ! i)])
                            (bank_counter + 1))
                  else T_bank_loop batch_aliased row_counter (i + 1) conflicts bank_counter))
      else 0)"
  by pat_completeness auto
termination
  by (relation "measure (\<lambda>(batch_aliased, row_counter, i, row_conflicts, bank_counter).
        row_counter - i)") auto

declare T_bank_loop.simps [simp del]

function T_print_cells :: "int list \<Rightarrow> int \<Rightarrow> nat \<Rightarrow> nat" where
  "T_print_cells cells requests j =
     (if int j < requests then
        (if length cells \<le> j then 1 else 1 + T_print_cells cells requests (j + 1))
      else 0)"
  by pat_completeness auto
termination
  by (relation "measure (\<lambda>(cells, requests, j). nat requests - j)") auto

declare T_print_cells.simps [simp del]

function T_print_aliased :: "row_request list \<Rightarrow> nat \<Rightarrow> nat \<Rightarrow> nat" where
  "T_print_aliased batch_aliased row_counter i =
     (if i < row_counter then
        (if length batch_aliased \<le> i then 1
         else 1 + T_print_cells (r_col (batch_aliased ! i)) (r_requests (batch_aliased ! i)) 0
           + T_print_aliased batch_aliased row_counter (i + 1))
      else 0)"
  by pat_completeness auto
termination
  by (relation "measure (\<lambda>(batch_aliased, row_counter, i). row_counter - i)") auto

declare T_print_aliased.simps [simp del]

function T_print_conflicts :: "bank_request list \<Rightarrow> nat \<Rightarrow> nat \<Rightarrow> nat" where
  "T_print_conflicts row_conflicts bank_counter i =
     (if i < bank_counter then
        (if length row_conflicts \<le> i then 1
         else 1 + T_print_cells (b_rows (row_conflicts ! i)) (b_requests (row_conflicts ! i)) 0
           + T_print_conflicts row_conflicts bank_counter (i + 1))
      else 0)"
  by pat_completeness auto
termination
  by (relation "measure (\<lambda>(row_conflicts, bank_counter, i). bank_counter - i)") auto

declare T_print_conflicts.simps [simp del]

definition T_scheduler :: "int \<Rightarrow> request list \<Rightarrow> nat" where
  "T_scheduler junk req_batch =
     T_alias_loop req_batch 0 (replicate BATCHSIZE (uninit_row_request junk)) 0
     + (case row_aliaser junk req_batch of
          Inl e \<Rightarrow> 0
        | Inr (batch_aliased, row_counter) \<Rightarrow>
            T_print_aliased batch_aliased row_counter 0
            + T_bank_loop batch_aliased row_counter 0
                (replicate row_counter (uninit_bank_request junk)) 0
            + (case bank_grouper junk batch_aliased row_counter of
                 Inl e \<Rightarrow> 0
               | Inr (row_conflicts, bank_counter) \<Rightarrow>
                   T_print_conflicts row_conflicts bank_counter 0))"

section \<open>What the specification calls row groups and bank queues\<close>

text \<open>
  The elements of a list in the order of their first occurrence, and the grouping of a
  list by a key: one group for each key, in the order in which the keys are first seen,
  holding the values of the elements with that key in the order of the list, duplicates
  included. These two definitions follow the words of the specification; the theorems
  below compare the arrays of the program with them.
\<close>

primrec first_seen :: "'a list \<Rightarrow> 'a list" where
  "first_seen [] = []"
| "first_seen (x # xs) = x # removeAll x (first_seen xs)"

definition grouped :: "('a \<Rightarrow> 'k) \<Rightarrow> ('a \<Rightarrow> 'v) \<Rightarrow> 'a list \<Rightarrow> ('k \<times> 'v list) list" where
  "grouped key val xs =
     map (\<lambda>k. (k, map val (filter (\<lambda>x. key x = k) xs))) (first_seen (map key xs))"

text \<open>The same grouping, one element at a time: the form the loops of the program have.\<close>

fun ins :: "'k \<Rightarrow> 'v \<Rightarrow> ('k \<times> 'v list) list \<Rightarrow> ('k \<times> 'v list) list" where
  "ins k v [] = [(k, [v])]"
| "ins k v ((k', vs) # gs) = (if k = k' then (k', vs @ [v]) # gs else (k', vs) # ins k v gs)"

text \<open>The members of all groups, each with the key of its group.\<close>

definition members :: "('k \<times> 'v list) list \<Rightarrow> ('k \<times> 'v) list" where
  "members gs = concat (map (\<lambda>g. map (Pair (fst g)) (snd g)) gs)"

text \<open>
  A row group is the initialised part of a row request: its key and the first \<open>requests\<close>
  cells of its \<open>col\<close> array. A bank queue is the same part of a bank request.
\<close>

definition req_key :: "request \<Rightarrow> int \<times> int \<times> int" where
  "req_key rq = (bank_group rq, bank rq, row rq)"

definition row_key :: "row_request \<Rightarrow> int \<times> int \<times> int" where
  "row_key e = (r_bank_group e, r_bank e, r_row e)"

definition row_columns :: "row_request \<Rightarrow> int list" where
  "row_columns e = take (nat (r_requests e)) (r_col e)"

definition row_groups ::
  "row_request list \<Rightarrow> nat \<Rightarrow> ((int \<times> int \<times> int) \<times> int list) list" where
  "row_groups batch_aliased row_counter =
     map (\<lambda>e. (row_key e, row_columns e)) (take row_counter batch_aliased)"

definition row_ids :: "row_request list \<Rightarrow> nat \<Rightarrow> int list" where
  "row_ids batch_aliased row_counter = map r_id (take row_counter batch_aliased)"

definition bank_key :: "row_request \<Rightarrow> int \<times> int" where
  "bank_key e = (r_bank_group e, r_bank e)"

definition queue_key :: "bank_request \<Rightarrow> int \<times> int" where
  "queue_key q = (b_bank_group q, b_bank q)"

definition queue_rows :: "bank_request \<Rightarrow> int list" where
  "queue_rows q = take (nat (b_requests q)) (b_rows q)"

definition bank_queues :: "bank_request list \<Rightarrow> nat \<Rightarrow> ((int \<times> int) \<times> int list) list" where
  "bank_queues row_conflicts bank_counter =
     map (\<lambda>q. (queue_key q, queue_rows q)) (take bank_counter row_conflicts)"

text \<open>The row groups and the bank queues a call of \<open>scheduler\<close> leaves behind.\<close>

definition scheduled_row_groups ::
  "int \<Rightarrow> request list \<Rightarrow> error + ((int \<times> int \<times> int) \<times> int list) list" where
  "scheduled_row_groups junk req_batch =
     map_sum id (\<lambda>r. row_groups (aliased_of r) (row_counter_of r)) (scheduler junk req_batch)"

definition scheduled_bank_queues ::
  "int \<Rightarrow> request list \<Rightarrow> error + ((int \<times> int) \<times> int list) list" where
  "scheduled_bank_queues junk req_batch =
     map_sum id (\<lambda>r. bank_queues (conflicts_of r) (bank_counter_of r)) (scheduler junk req_batch)"

definition scheduled_stdout :: "int \<Rightarrow> request list \<Rightarrow> error + string" where
  "scheduled_stdout junk req_batch = map_sum id stdout_of (scheduler junk req_batch)"

text \<open>The requests of a batch that carry a set \<open>valid\<close> flag, as the specification reads it.\<close>

definition valid_requests :: "request list \<Rightarrow> request list" where
  "valid_requests req_batch = filter (\<lambda>rq. valid rq \<noteq> 0) req_batch"

text \<open>Two requests that differ at most in their \<open>valid\<close> flag.\<close>

definition same_address :: "request \<Rightarrow> request \<Rightarrow> bool" where
  "same_address p q \<longleftrightarrow>
     bank_group p = bank_group q \<and> bank p = bank q \<and> row p = row q \<and> col p = col q"

section \<open>Loop invariants\<close>

text \<open>
  After \<open>i\<close> requests, the first \<open>row_counter\<close> row requests are the grouping of these
  requests by bank group, bank and row; their identifiers count from 1, and every
  \<open>requests\<close> field is an index into or just behind its \<open>col\<close> array.
\<close>

definition alias_inv :: "request list \<Rightarrow> nat \<Rightarrow> row_request list \<Rightarrow> nat \<Rightarrow> bool" where
  "alias_inv req_batch i ba rc \<longleftrightarrow>
     length ba = BATCHSIZE \<and> rc \<le> BATCHSIZE \<and>
     (\<forall>n<BATCHSIZE. length (r_col (ba ! n)) = BATCHSIZE) \<and>
     row_groups ba rc = grouped req_key col (take i req_batch) \<and>
     (\<forall>n<rc. r_valid (ba ! n) = 1 \<and> r_id (ba ! n) = int n + 1 \<and>
        0 \<le> r_requests (ba ! n) \<and> nat (r_requests (ba ! n)) \<le> BATCHSIZE)"

text \<open>
  After \<open>i\<close> row requests, the first \<open>bank_counter\<close> bank requests are the grouping of their
  identifiers by bank group and bank.
\<close>

definition bank_inv ::
  "row_request list \<Rightarrow> nat \<Rightarrow> nat \<Rightarrow> bank_request list \<Rightarrow> nat \<Rightarrow> bool" where
  "bank_inv ba rc i cf bc \<longleftrightarrow>
     length cf = rc \<and> bc \<le> rc \<and>
     (\<forall>n<rc. length (b_rows (cf ! n)) = BATCHSIZE) \<and>
     bank_queues cf bc = grouped bank_key r_id (take i ba) \<and>
     (\<forall>n<bc. b_valid (cf ! n) = 1 \<and>
        0 \<le> b_requests (cf ! n) \<and> nat (b_requests (cf ! n)) \<le> BATCHSIZE)"

section \<open>The batches of the examples\<close>

text \<open>The batch of \<open>main\<close> with every \<open>valid\<close> flag cleared.\<close>

definition invalid_batch :: "request list" where
  "invalid_batch = map (\<lambda>rq. rq\<lparr>valid := 0\<rparr>) main_batch"

text \<open>The batch of \<open>main\<close> with the flag of its third request cleared.\<close>

definition mixed_batch :: "request list" where
  "mixed_batch = main_batch[2 := (main_batch ! 2)\<lparr>valid := 0\<rparr>]"

text \<open>
  A batch with an invalid request in front of the valid ones, and one behind them; the
  first shares its bank group, bank and row with the third.
\<close>

definition shifted_batch :: "request list" where
  "shifted_batch =
     [\<lparr>valid = 0, bank_group = 0, bank = 0, row = 9, col = 70\<rparr>,
      \<lparr>valid = 1, bank_group = 0, bank = 0, row = 1, col = 6\<rparr>,
      \<lparr>valid = 1, bank_group = 0, bank = 0, row = 9, col = 5\<rparr>,
      \<lparr>valid = 1, bank_group = 0, bank = 0, row = 1, col = 3\<rparr>,
      \<lparr>valid = 0, bank_group = 3, bank = 3, row = 3, col = 33\<rparr>]"

text \<open>Six valid requests, one more than \<open>BATCHSIZE\<close>.\<close>

definition six_batch :: "request list" where
  "six_batch = main_batch @ [\<lparr>valid = 1, bank_group = 3, bank = 3, row = 3, col = 3\<rparr>]"

text \<open>The batch of \<open>main\<close> with negative fields in its first request.\<close>

definition negative_batch :: "request list" where
  "negative_batch =
     main_batch[0 := \<lparr>valid = 1, bank_group = - 1, bank = - 2, row = - 3, col = - 4\<rparr>]"

text \<open>The array \<open>batch_aliased\<close> as the batch of \<open>main\<close> leaves it, with 0 for \<open>junk\<close>.\<close>

definition main_aliased :: "row_request list" where
  "main_aliased =
     [\<lparr>r_valid = 1, r_bank_group = 0, r_bank = 0, r_row = 1,
       r_col = [6, 3, 0, 0, 0], r_requests = 2, r_id = 1\<rparr>,
      \<lparr>r_valid = 1, r_bank_group = 0, r_bank = 0, r_row = 2,
       r_col = [5, 0, 0, 0, 0], r_requests = 1, r_id = 2\<rparr>,
      \<lparr>r_valid = 1, r_bank_group = 0, r_bank = 0, r_row = 4,
       r_col = [4, 0, 0, 0, 0], r_requests = 1, r_id = 3\<rparr>,
      \<lparr>r_valid = 1, r_bank_group = 2, r_bank = 1, r_row = 2,
       r_col = [2, 0, 0, 0, 0], r_requests = 1, r_id = 4\<rparr>,
      uninit_row_request 0]"

section \<open>Grouping: the two forms agree\<close>

lemma set_first_seen [simp]: "set (first_seen xs) = set xs"
  by (induction xs) auto

lemma distinct_first_seen [simp]: "distinct (first_seen xs)"
  by (induction xs) (auto simp: distinct_removeAll)

lemma first_seen_snoc:
  "first_seen (xs @ [x]) = (if x \<in> set xs then first_seen xs else first_seen xs @ [x])"
  by (induction xs) auto

lemma length_first_seen: "length (first_seen xs) \<le> length xs"
proof (induction xs)
  case Nil
  show ?case by simp
next
  case (Cons x xs)
  have "length (removeAll x (first_seen xs)) \<le> length (first_seen xs)"
    by (rule length_removeAll_less_eq)
  from this Cons.IH have "length (removeAll x (first_seen xs)) \<le> length xs"
    by (rule le_trans)
  thus ?case by simp
qed

lemma first_seen_nonempty: "xs \<noteq> [] \<Longrightarrow> first_seen xs \<noteq> []"
  by (cases xs) simp_all

lemma ins_map:
  "distinct ks \<Longrightarrow>
   ins k v (map (\<lambda>k'. (k', f k')) ks) =
     (if k \<in> set ks then map (\<lambda>k'. (k', if k' = k then f k' @ [v] else f k')) ks
      else map (\<lambda>k'. (k', f k')) ks @ [(k, [v])])"
  by (induction ks) auto

lemma grouped_snoc: "grouped key val (xs @ [x]) = ins (key x) (val x) (grouped key val xs)"
  by (auto simp: grouped_def first_seen_snoc ins_map filter_empty_conv image_iff)

lemma grouped_Nil [simp]: "grouped key val [] = []"
  by (simp add: grouped_def)

lemma ins_miss: "k \<notin> fst ` set gs \<Longrightarrow> ins k v gs = gs @ [(k, [v])]"
  by (induction gs) auto

lemma ins_hit:
  "m < length gs \<Longrightarrow> fst (gs ! m) = k \<Longrightarrow> \<forall>n<m. fst (gs ! n) \<noteq> k \<Longrightarrow>
   ins k v gs = gs[m := (k, snd (gs ! m) @ [v])]"
proof (induction gs arbitrary: m)
  case Nil
  then show ?case by simp
next
  case (Cons g gs)
  obtain k' vs where g: "g = (k', vs)" by (cases g)
  show ?case
  proof (cases m)
    case 0
    with Cons.prems g show ?thesis by simp
  next
    case (Suc m')
    from Cons.prems Suc have "fst ((g # gs) ! 0) \<noteq> k" by blast
    hence ne: "k' \<noteq> k" using g by simp
    have "ins k v gs = gs[m' := (k, snd (gs ! m') @ [v])]"
    proof (rule Cons.IH)
      show "m' < length gs" using Cons.prems Suc by simp
      show "fst (gs ! m') = k" using Cons.prems Suc by simp
      show "\<forall>n<m'. fst (gs ! n) \<noteq> k"
      proof (intro allI impI)
        fix n assume "n < m'"
        hence "Suc n < m" using Suc by simp
        with Cons.prems have "fst ((g # gs) ! Suc n) \<noteq> k" by blast
        thus "fst (gs ! n) \<noteq> k" by simp
      qed
    qed
    with ne g Suc show ?thesis by auto
  qed
qed

lemma first_index:
  assumes "k \<in> fst ` set gs"
  shows "\<exists>m<length gs. fst (gs ! m) = k \<and> (\<forall>n<m. fst (gs ! n) \<noteq> k)"
proof -
  from assms obtain m0 where m0: "m0 < length gs" "fst (gs ! m0) = k"
    by (auto simp: in_set_conv_nth)
  define m where "m = (LEAST n. n < length gs \<and> fst (gs ! n) = k)"
  have a: "m < length gs \<and> fst (gs ! m) = k"
    unfolding m_def by (rule LeastI [of "\<lambda>n. n < length gs \<and> fst (gs ! n) = k" m0]) (simp add: m0)
  have b: "\<forall>n<m. fst (gs ! n) \<noteq> k"
  proof (intro allI impI)
    fix n assume nm: "n < m"
    show "fst (gs ! n) \<noteq> k"
    proof
      assume "fst (gs ! n) = k"
      with nm a have "n < length gs \<and> fst (gs ! n) = k" by simp
      hence "m \<le> n" unfolding m_def by (rule Least_le)
      with nm show False by simp
    qed
  qed
  from a b show ?thesis by blast
qed

lemma length_grouped: "length (grouped key val xs) \<le> length xs"
  using length_first_seen [of "map key xs"] by (simp add: grouped_def)

lemma length_grouped_vals:
  "g \<in> set (grouped key val xs) \<Longrightarrow> length (snd g) \<le> length xs"
  by (auto simp: grouped_def)

lemma map_fst_grouped: "map fst (grouped key val xs) = first_seen (map key xs)"
  by (simp add: grouped_def comp_def)

lemma grouped_nonempty: "xs \<noteq> [] \<Longrightarrow> grouped key val xs \<noteq> []"
  by (simp add: grouped_def first_seen_nonempty)

lemma members_ins: "mset (members (ins k v gs)) = add_mset (k, v) (mset (members gs))"
  by (induction gs) (auto simp: members_def)

lemma members_grouped:
  "mset (members (grouped key val xs)) = mset (map (\<lambda>x. (key x, val x)) xs)"
proof (induction xs rule: rev_induct)
  case Nil
  show ?case by (simp add: members_def)
next
  case (snoc x xs)
  then show ?case by (simp add: grouped_snoc members_ins)
qed

lemma take_Suc_update: "n < length xs \<Longrightarrow> take (Suc n) (xs[n := x]) = take n xs @ [x]"
  by (simp add: take_Suc_conv_app_nth)

section \<open>The row aliaser computes the grouping\<close>

lemma alias_find_miss:
  "j \<le> rc \<Longrightarrow> rc \<le> length ba \<Longrightarrow> \<forall>n. j \<le> n \<and> n < rc \<longrightarrow> row_key (ba ! n) \<noteq> req_key rq \<Longrightarrow>
   alias_find rq ba rc j = Inr (False, ba)"
proof (induction "rc - j" arbitrary: j)
  case 0
  then show ?case by (simp add: alias_find.simps)
next
  case (Suc d)
  from Suc.hyps(2) have lt: "j < rc" by simp
  with Suc.prems have ne: "row_key (ba ! j) \<noteq> req_key rq" by simp
  have "alias_find rq ba rc (j + 1) = Inr (False, ba)"
    using Suc.hyps(2) Suc.prems lt by (intro Suc.hyps(1)) auto
  with lt ne Suc.prems(2) show ?case
    by (subst alias_find.simps) (auto simp: row_key_def req_key_def)
qed

lemma alias_find_hit:
  "j \<le> m \<Longrightarrow> m < rc \<Longrightarrow> rc \<le> length ba \<Longrightarrow>
   \<forall>n. j \<le> n \<and> n < m \<longrightarrow> row_key (ba ! n) \<noteq> req_key rq \<Longrightarrow>
   row_key (ba ! m) = req_key rq \<Longrightarrow>
   0 \<le> r_requests (ba ! m) \<Longrightarrow> nat (r_requests (ba ! m)) < length (r_col (ba ! m)) \<Longrightarrow>
   alias_find rq ba rc j = Inr (True, ba[m := add_column (ba ! m) (col rq)])"
proof (induction "m - j" arbitrary: j)
  case 0
  hence "j = m" by simp
  with 0 show ?case
    by (subst alias_find.simps) (auto simp: row_key_def req_key_def)
next
  case (Suc d)
  from Suc.hyps(2) have lt: "j < m" by simp
  with Suc.prems have ne: "row_key (ba ! j) \<noteq> req_key rq" by simp
  have "alias_find rq ba rc (j + 1) = Inr (True, ba[m := add_column (ba ! m) (col rq)])"
    using Suc.hyps(2) Suc.prems lt by (intro Suc.hyps(1)) auto
  with lt ne Suc.prems(2,3) show ?case
    by (subst alias_find.simps) (auto simp: row_key_def req_key_def)
qed

lemma row_groups_length: "rc \<le> length ba \<Longrightarrow> length (row_groups ba rc) = rc"
  by (simp add: row_groups_def)

lemma row_groups_nth:
  "n < rc \<Longrightarrow> rc \<le> length ba \<Longrightarrow> row_groups ba rc ! n = (row_key (ba ! n), row_columns (ba ! n))"
  by (simp add: row_groups_def)

lemma row_groups_update:
  "m < rc \<Longrightarrow> row_groups (ba[m := e]) rc = (row_groups ba rc)[m := (row_key e, row_columns e)]"
  by (simp add: row_groups_def take_update_swap map_update)

lemma row_groups_open:
  "rc < length ba \<Longrightarrow>
   row_groups (ba[rc := e]) (Suc rc) = row_groups ba rc @ [(row_key e, row_columns e)]"
  by (simp add: row_groups_def take_Suc_update)

lemma alias_inv_init: "alias_inv req_batch 0 (replicate BATCHSIZE (uninit_row_request junk)) 0"
  by (simp add: alias_inv_def row_groups_def uninit_row_request_def)

lemma alias_step:
  assumes inv: "alias_inv batch i ba rc" and i: "i < BATCHSIZE" "i < length batch"
  shows "\<exists>found ba'. alias_find (batch ! i) ba rc 0 = Inr (found, ba') \<and>
           (found \<longrightarrow> alias_inv batch (Suc i) ba' rc) \<and>
           (\<not> found \<longrightarrow> rc < BATCHSIZE \<and> ba' = ba \<and>
              alias_inv batch (Suc i) (ba[rc := new_row_request (ba ! rc) (batch ! i) rc])
                (Suc rc))"
proof -
  define gs where "gs = grouped req_key col (take i batch)"
  define k where "k = req_key (batch ! i)"
  define c where "c = col (batch ! i)"
  from inv have len: "length ba = BATCHSIZE" and rcB: "rc \<le> BATCHSIZE"
    and cols: "\<forall>n<BATCHSIZE. length (r_col (ba ! n)) = BATCHSIZE"
    and rg: "row_groups ba rc = gs"
    and flds: "\<forall>n<rc. r_valid (ba ! n) = 1 \<and> r_id (ba ! n) = int n + 1 \<and>
        0 \<le> r_requests (ba ! n) \<and> nat (r_requests (ba ! n)) \<le> BATCHSIZE"
    by (simp_all add: alias_inv_def gs_def)
  from rcB len have rcl: "rc \<le> length ba" by simp
  have lgs: "length gs = rc" using rg row_groups_length [OF rcl] by simp
  have nth: "\<And>n. n < rc \<Longrightarrow> gs ! n = (row_key (ba ! n), row_columns (ba ! n))"
    using rg row_groups_nth rcl by metis
  have next_gs: "grouped req_key col (take (Suc i) batch) = ins k c gs"
    using i(2) by (simp add: take_Suc_conv_app_nth grouped_snoc gs_def k_def c_def)
  show ?thesis
  proof (cases "k \<in> fst ` set gs")
    case True
    from first_index [OF True] lgs obtain m where m: "m < rc" "fst (gs ! m) = k"
      "\<forall>n<m. fst (gs ! n) \<noteq> k" by auto
    let ?e = "ba ! m"
    let ?e' = "add_column ?e (col (batch ! i))"
    have mB: "m < BATCHSIZE" using m(1) rcB by simp
    have key_m: "row_key ?e = k" using nth [OF m(1)] m(2) by simp
    have before: "\<forall>n. 0 \<le> n \<and> n < m \<longrightarrow> row_key (ba ! n) \<noteq> req_key (batch ! i)"
    proof (intro allI impI)
      fix n assume "0 \<le> n \<and> n < m"
      hence nm: "n < m" by simp
      hence "n < rc" using m(1) by simp
      from nth [OF this] m(3) nm show "row_key (ba ! n) \<noteq> req_key (batch ! i)"
        by (auto simp: k_def)
    qed
    have nonneg: "0 \<le> r_requests ?e" and leB: "nat (r_requests ?e) \<le> BATCHSIZE"
      using flds m(1) by auto
    have lcol: "length (r_col ?e) = BATCHSIZE" using cols mB by simp
    have cols_m: "row_columns ?e = snd (gs ! m)" using nth [OF m(1)] by simp
    have "gs ! m \<in> set gs" using m(1) lgs by simp
    hence "length (snd (gs ! m)) \<le> length (take i batch)"
      unfolding gs_def by (rule length_grouped_vals)
    hence "length (row_columns ?e) \<le> i" using cols_m by simp
    hence "nat (r_requests ?e) \<le> i" using leB lcol by (simp add: row_columns_def)
    hence lt: "nat (r_requests ?e) < length (r_col ?e)" using i(1) lcol by simp
    have find: "alias_find (batch ! i) ba rc 0 = Inr (True, ba[m := ?e'])"
      using before key_m nonneg lt m(1) rcl
      by (intro alias_find_hit) (simp_all add: k_def)
    have cols': "row_columns ?e' = row_columns ?e @ [c]"
      using nonneg lt
      by (simp add: row_columns_def add_column_def nat_add_distrib take_Suc_update c_def)
    have key': "row_key ?e' = k" using key_m by (simp add: row_key_def add_column_def)
    have "row_groups (ba[m := ?e']) rc = gs[m := (k, snd (gs ! m) @ [c])]"
      using m(1) rg cols' key' cols_m by (simp add: row_groups_update)
    also have "\<dots> = ins k c gs"
      using m lgs by (simp add: ins_hit)
    finally have rg': "row_groups (ba[m := ?e']) rc = grouped req_key col (take (Suc i) batch)"
      using next_gs by simp
    have "alias_inv batch (Suc i) (ba[m := ?e']) rc"
      unfolding alias_inv_def
    proof (intro conjI allI impI)
      show "length (ba[m := ?e']) = BATCHSIZE" using len by simp
      show "rc \<le> BATCHSIZE" by (rule rcB)
      show "row_groups (ba[m := ?e']) rc = grouped req_key col (take (Suc i) batch)" by (rule rg')
    next
      fix n assume "n < BATCHSIZE"
      thus "length (r_col (ba[m := ?e'] ! n)) = BATCHSIZE"
        using cols len by (cases "n = m") (simp_all add: add_column_def)
    next
      fix n assume n: "n < rc"
      show "r_valid (ba[m := ?e'] ! n) = 1"
        using flds n rcl by (cases "n = m") (simp_all add: add_column_def)
      show "r_id (ba[m := ?e'] ! n) = int n + 1"
        using flds n rcl by (cases "n = m") (simp_all add: add_column_def)
      show "0 \<le> r_requests (ba[m := ?e'] ! n)"
        using flds n rcl nonneg by (cases "n = m") (simp_all add: add_column_def)
      show "nat (r_requests (ba[m := ?e'] ! n)) \<le> BATCHSIZE"
        using flds n rcl nonneg lt lcol by (cases "n = m") (simp_all add: add_column_def)
    qed
    with find show ?thesis by (intro exI [where x = True]) simp
  next
    case False
    have "length gs \<le> length (take i batch)" unfolding gs_def by (rule length_grouped)
    hence rci: "rc \<le> i" using lgs by simp
    hence rclt: "rc < BATCHSIZE" using i(1) by simp
    hence rcl': "rc < length ba" using len by simp
    let ?new = "new_row_request (ba ! rc) (batch ! i) rc"
    have miss: "\<forall>n. 0 \<le> n \<and> n < rc \<longrightarrow> row_key (ba ! n) \<noteq> req_key (batch ! i)"
    proof (intro allI impI)
      fix n assume "0 \<le> n \<and> n < rc"
      hence n: "n < rc" by simp
      hence "gs ! n \<in> set gs" using lgs by simp
      hence "fst (gs ! n) \<in> fst ` set gs" by (rule imageI)
      with False have "fst (gs ! n) \<noteq> k" by auto
      thus "row_key (ba ! n) \<noteq> req_key (batch ! i)" using nth [OF n] by (simp add: k_def)
    qed
    have find: "alias_find (batch ! i) ba rc 0 = Inr (False, ba)"
      using miss rcl by (intro alias_find_miss) simp_all
    have lcol: "length (r_col (ba ! rc)) = BATCHSIZE" using cols rclt by simp
    hence "0 < length (r_col (ba ! rc))" by (simp add: BATCHSIZE_def)
    hence cols': "row_columns ?new = [c]"
      by (cases "r_col (ba ! rc)") (simp_all add: row_columns_def new_row_request_def c_def)
    have key': "row_key ?new = k"
      by (simp add: row_key_def req_key_def new_row_request_def k_def)
    have "row_groups (ba[rc := ?new]) (Suc rc) = gs @ [(k, [c])]"
      using rcl' rg cols' key' by (simp add: row_groups_open)
    also have "\<dots> = ins k c gs" using False by (simp add: ins_miss)
    finally have rg': "row_groups (ba[rc := ?new]) (Suc rc) = grouped req_key col (take (Suc i) batch)"
      using next_gs by simp
    have "alias_inv batch (Suc i) (ba[rc := ?new]) (Suc rc)"
      unfolding alias_inv_def
    proof (intro conjI allI impI)
      show "length (ba[rc := ?new]) = BATCHSIZE" using len by simp
      show "Suc rc \<le> BATCHSIZE" using rclt by simp
      show "row_groups (ba[rc := ?new]) (Suc rc) = grouped req_key col (take (Suc i) batch)"
        by (rule rg')
    next
      fix n assume "n < BATCHSIZE"
      thus "length (r_col (ba[rc := ?new] ! n)) = BATCHSIZE"
        using cols len by (cases "n = rc") (simp_all add: new_row_request_def)
    next
      fix n assume n: "n < Suc rc"
      show "r_valid (ba[rc := ?new] ! n) = 1"
        using flds n rcl' by (cases "n = rc") (simp_all add: new_row_request_def)
      show "r_id (ba[rc := ?new] ! n) = int n + 1"
        using flds n rcl' by (cases "n = rc") (simp_all add: new_row_request_def)
      show "0 \<le> r_requests (ba[rc := ?new] ! n)"
        using flds n rcl' by (cases "n = rc") (simp_all add: new_row_request_def)
      show "nat (r_requests (ba[rc := ?new] ! n)) \<le> BATCHSIZE"
        using flds n rcl' by (cases "n = rc") (simp_all add: new_row_request_def BATCHSIZE_def)
    qed
    with find rclt show ?thesis by (intro exI [where x = False]) simp
  qed
qed

lemma alias_loop_inv:
  assumes "alias_inv batch i ba rc" and "i \<le> BATCHSIZE" and "BATCHSIZE \<le> length batch"
  shows "\<exists>ba' rc'. alias_loop batch i ba rc = Inr (ba', rc') \<and> alias_inv batch BATCHSIZE ba' rc'"
  using assms
proof (induction "BATCHSIZE - i" arbitrary: i ba rc)
  case 0
  hence "i = BATCHSIZE" by simp
  with 0 show ?case by (subst alias_loop.simps) simp
next
  case (Suc d)
  from Suc.hyps(2) have lt: "i < BATCHSIZE" by simp
  hence il: "i < length batch" using Suc.prems(3) by simp
  from alias_step [OF Suc.prems(1) lt il] obtain found ba1 where
    find: "alias_find (batch ! i) ba rc 0 = Inr (found, ba1)" and
    hit: "found \<longrightarrow> alias_inv batch (Suc i) ba1 rc" and
    miss: "\<not> found \<longrightarrow> rc < BATCHSIZE \<and> ba1 = ba \<and>
              alias_inv batch (Suc i) (ba[rc := new_row_request (ba ! rc) (batch ! i) rc])
                (Suc rc)"
    by blast
  have d: "d = BATCHSIZE - Suc i" using Suc.hyps(2) by simp
  have le: "Suc i \<le> BATCHSIZE" using lt by simp
  show ?case
  proof (cases found)
    case True
    from Suc.hyps(1) [OF d _ le Suc.prems(3)] hit True obtain ba' rc' where
      "alias_loop batch (Suc i) ba1 rc = Inr (ba', rc')" "alias_inv batch BATCHSIZE ba' rc'"
      by blast
    with find True lt il show ?thesis by (subst alias_loop.simps) simp
  next
    case False
    with miss have rc: "rc < BATCHSIZE" and eq: "ba1 = ba" and
      inv': "alias_inv batch (Suc i) (ba[rc := new_row_request (ba ! rc) (batch ! i) rc])
                (Suc rc)" by simp_all
    from Suc.prems(1) rc have "length ba = BATCHSIZE" "length (r_col (ba ! rc)) = BATCHSIZE"
      by (simp_all add: alias_inv_def)
    hence ok: "\<not> (length ba \<le> rc \<or> r_col (ba ! rc) = [])" using rc by (auto simp: BATCHSIZE_def)
    from Suc.hyps(1) [OF d inv' le Suc.prems(3)] obtain ba' rc' where
      "alias_loop batch (Suc i) (ba[rc := new_row_request (ba ! rc) (batch ! i) rc])
                (Suc rc) = Inr (ba', rc')" "alias_inv batch BATCHSIZE ba' rc'"
      by blast
    with find False lt il eq ok show ?thesis by (subst alias_loop.simps) simp
  qed
qed

lemma row_aliaser_inv:
  assumes "BATCHSIZE \<le> length batch"
  shows "\<exists>ba rc. row_aliaser junk batch = Inr (ba, rc) \<and> alias_inv batch BATCHSIZE ba rc"
  unfolding row_aliaser_def
  using alias_inv_init _ assms by (rule alias_loop_inv) simp

section \<open>The bank conflict grouper computes the grouping\<close>

lemma bank_find_miss:
  "j \<le> bc \<Longrightarrow> bc \<le> length cf \<Longrightarrow> \<forall>n. j \<le> n \<and> n < bc \<longrightarrow> queue_key (cf ! n) \<noteq> bank_key rr \<Longrightarrow>
   bank_find rr cf bc j = Inr (False, cf)"
proof (induction "bc - j" arbitrary: j)
  case 0
  then show ?case by (simp add: bank_find.simps)
next
  case (Suc d)
  from Suc.hyps(2) have lt: "j < bc" by simp
  with Suc.prems have ne: "queue_key (cf ! j) \<noteq> bank_key rr" by simp
  have "bank_find rr cf bc (j + 1) = Inr (False, cf)"
    using Suc.hyps(2) Suc.prems lt by (intro Suc.hyps(1)) auto
  with lt ne Suc.prems(2) show ?case
    by (subst bank_find.simps) (auto simp: queue_key_def bank_key_def)
qed

lemma bank_find_hit:
  "j \<le> m \<Longrightarrow> m < bc \<Longrightarrow> bc \<le> length cf \<Longrightarrow>
   \<forall>n. j \<le> n \<and> n < m \<longrightarrow> queue_key (cf ! n) \<noteq> bank_key rr \<Longrightarrow>
   queue_key (cf ! m) = bank_key rr \<Longrightarrow>
   0 \<le> b_requests (cf ! m) \<Longrightarrow> nat (b_requests (cf ! m)) < length (b_rows (cf ! m)) \<Longrightarrow>
   bank_find rr cf bc j = Inr (True, cf[m := add_row (cf ! m) (r_id rr)])"
proof (induction "m - j" arbitrary: j)
  case 0
  hence "j = m" by simp
  with 0 show ?case
    by (subst bank_find.simps) (auto simp: queue_key_def bank_key_def)
next
  case (Suc d)
  from Suc.hyps(2) have lt: "j < m" by simp
  with Suc.prems have ne: "queue_key (cf ! j) \<noteq> bank_key rr" by simp
  have "bank_find rr cf bc (j + 1) = Inr (True, cf[m := add_row (cf ! m) (r_id rr)])"
    using Suc.hyps(2) Suc.prems lt by (intro Suc.hyps(1)) auto
  with lt ne Suc.prems(2,3) show ?case
    by (subst bank_find.simps) (auto simp: queue_key_def bank_key_def)
qed

lemma bank_queues_length: "bc \<le> length cf \<Longrightarrow> length (bank_queues cf bc) = bc"
  by (simp add: bank_queues_def)

lemma bank_queues_nth:
  "n < bc \<Longrightarrow> bc \<le> length cf \<Longrightarrow> bank_queues cf bc ! n = (queue_key (cf ! n), queue_rows (cf ! n))"
  by (simp add: bank_queues_def)

lemma bank_queues_update:
  "m < bc \<Longrightarrow> bank_queues (cf[m := q]) bc = (bank_queues cf bc)[m := (queue_key q, queue_rows q)]"
  by (simp add: bank_queues_def take_update_swap map_update)

lemma bank_queues_open:
  "bc < length cf \<Longrightarrow>
   bank_queues (cf[bc := q]) (Suc bc) = bank_queues cf bc @ [(queue_key q, queue_rows q)]"
  by (simp add: bank_queues_def take_Suc_update)

lemma bank_inv_init: "bank_inv ba rc 0 (replicate rc (uninit_bank_request junk)) 0"
  by (simp add: bank_inv_def bank_queues_def uninit_bank_request_def)

lemma bank_step:
  assumes inv: "bank_inv ba rc i cf bc" and i: "i < rc" "rc \<le> length ba" "rc \<le> BATCHSIZE"
  shows "\<exists>found cf'. bank_find (ba ! i) cf bc 0 = Inr (found, cf') \<and>
           (found \<longrightarrow> bank_inv ba rc (Suc i) cf' bc) \<and>
           (\<not> found \<longrightarrow> bc < rc \<and> cf' = cf \<and>
              bank_inv ba rc (Suc i) (cf[bc := new_bank_request (cf ! bc) (ba ! i)]) (Suc bc))"
proof -
  define gs where "gs = grouped bank_key r_id (take i ba)"
  define k where "k = bank_key (ba ! i)"
  define c where "c = r_id (ba ! i)"
  from inv have len: "length cf = rc" and bcr: "bc \<le> rc"
    and cols: "\<forall>n<rc. length (b_rows (cf ! n)) = BATCHSIZE"
    and rg: "bank_queues cf bc = gs"
    and flds: "\<forall>n<bc. b_valid (cf ! n) = 1 \<and>
        0 \<le> b_requests (cf ! n) \<and> nat (b_requests (cf ! n)) \<le> BATCHSIZE"
    by (simp_all add: bank_inv_def gs_def)
  from bcr len have bcl: "bc \<le> length cf" by simp
  have il: "i < length ba" using i by simp
  have iB: "i < BATCHSIZE" using i by simp
  have lgs: "length gs = bc" using rg bank_queues_length [OF bcl] by simp
  have nth: "\<And>n. n < bc \<Longrightarrow> gs ! n = (queue_key (cf ! n), queue_rows (cf ! n))"
    using rg bank_queues_nth bcl by metis
  have next_gs: "grouped bank_key r_id (take (Suc i) ba) = ins k c gs"
    using il by (simp add: take_Suc_conv_app_nth grouped_snoc gs_def k_def c_def)
  show ?thesis
  proof (cases "k \<in> fst ` set gs")
    case True
    from first_index [OF True] lgs obtain m where m: "m < bc" "fst (gs ! m) = k"
      "\<forall>n<m. fst (gs ! n) \<noteq> k" by auto
    let ?e = "cf ! m"
    let ?e' = "add_row ?e (r_id (ba ! i))"
    have mr: "m < rc" using m(1) bcr by simp
    have key_m: "queue_key ?e = k" using nth [OF m(1)] m(2) by simp
    have before: "\<forall>n. 0 \<le> n \<and> n < m \<longrightarrow> queue_key (cf ! n) \<noteq> bank_key (ba ! i)"
    proof (intro allI impI)
      fix n assume "0 \<le> n \<and> n < m"
      hence nm: "n < m" by simp
      hence "n < bc" using m(1) by simp
      from nth [OF this] m(3) nm show "queue_key (cf ! n) \<noteq> bank_key (ba ! i)"
        by (auto simp: k_def)
    qed
    have nonneg: "0 \<le> b_requests ?e" and leB: "nat (b_requests ?e) \<le> BATCHSIZE"
      using flds m(1) by auto
    have lcol: "length (b_rows ?e) = BATCHSIZE" using cols mr by simp
    have cols_m: "queue_rows ?e = snd (gs ! m)" using nth [OF m(1)] by simp
    have "gs ! m \<in> set gs" using m(1) lgs by simp
    hence "length (snd (gs ! m)) \<le> length (take i ba)"
      unfolding gs_def by (rule length_grouped_vals)
    hence "length (queue_rows ?e) \<le> i" using cols_m by simp
    hence "nat (b_requests ?e) \<le> i" using leB lcol by (simp add: queue_rows_def)
    hence lt: "nat (b_requests ?e) < length (b_rows ?e)" using iB lcol by simp
    have find: "bank_find (ba ! i) cf bc 0 = Inr (True, cf[m := ?e'])"
      using before key_m nonneg lt m(1) bcl
      by (intro bank_find_hit) (simp_all add: k_def)
    have cols': "queue_rows ?e' = queue_rows ?e @ [c]"
      using nonneg lt
      by (simp add: queue_rows_def add_row_def nat_add_distrib take_Suc_update c_def)
    have key': "queue_key ?e' = k" using key_m by (simp add: queue_key_def add_row_def)
    have "bank_queues (cf[m := ?e']) bc = gs[m := (k, snd (gs ! m) @ [c])]"
      using m(1) rg cols' key' cols_m by (simp add: bank_queues_update)
    also have "\<dots> = ins k c gs"
      using m lgs by (simp add: ins_hit)
    finally have rg': "bank_queues (cf[m := ?e']) bc = grouped bank_key r_id (take (Suc i) ba)"
      using next_gs by simp
    have "bank_inv ba rc (Suc i) (cf[m := ?e']) bc"
      unfolding bank_inv_def
    proof (intro conjI allI impI)
      show "length (cf[m := ?e']) = rc" using len by simp
      show "bc \<le> rc" by (rule bcr)
      show "bank_queues (cf[m := ?e']) bc = grouped bank_key r_id (take (Suc i) ba)" by (rule rg')
    next
      fix n assume "n < rc"
      thus "length (b_rows (cf[m := ?e'] ! n)) = BATCHSIZE"
        using cols len by (cases "n = m") (simp_all add: add_row_def)
    next
      fix n assume n: "n < bc"
      show "b_valid (cf[m := ?e'] ! n) = 1"
        using flds n bcl by (cases "n = m") (simp_all add: add_row_def)
      show "0 \<le> b_requests (cf[m := ?e'] ! n)"
        using flds n bcl nonneg by (cases "n = m") (simp_all add: add_row_def)
      show "nat (b_requests (cf[m := ?e'] ! n)) \<le> BATCHSIZE"
        using flds n bcl nonneg lt lcol by (cases "n = m") (simp_all add: add_row_def)
    qed
    with find show ?thesis by (intro exI [where x = True]) simp
  next
    case False
    have "length gs \<le> length (take i ba)" unfolding gs_def by (rule length_grouped)
    hence bci: "bc \<le> i" using lgs by simp
    hence bclt: "bc < rc" using i(1) by simp
    hence bcl': "bc < length cf" using len by simp
    let ?new = "new_bank_request (cf ! bc) (ba ! i)"
    have miss: "\<forall>n. 0 \<le> n \<and> n < bc \<longrightarrow> queue_key (cf ! n) \<noteq> bank_key (ba ! i)"
    proof (intro allI impI)
      fix n assume "0 \<le> n \<and> n < bc"
      hence n: "n < bc" by simp
      hence "gs ! n \<in> set gs" using lgs by simp
      hence "fst (gs ! n) \<in> fst ` set gs" by (rule imageI)
      with False have "fst (gs ! n) \<noteq> k" by auto
      thus "queue_key (cf ! n) \<noteq> bank_key (ba ! i)" using nth [OF n] by (simp add: k_def)
    qed
    have find: "bank_find (ba ! i) cf bc 0 = Inr (False, cf)"
      using miss bcl by (intro bank_find_miss) simp_all
    have lcol: "length (b_rows (cf ! bc)) = BATCHSIZE" using cols bclt by simp
    hence "0 < length (b_rows (cf ! bc))" by (simp add: BATCHSIZE_def)
    hence cols': "queue_rows ?new = [c]"
      by (cases "b_rows (cf ! bc)") (simp_all add: queue_rows_def new_bank_request_def c_def)
    have key': "queue_key ?new = k"
      by (simp add: queue_key_def bank_key_def new_bank_request_def k_def)
    have "bank_queues (cf[bc := ?new]) (Suc bc) = gs @ [(k, [c])]"
      using bcl' rg cols' key' by (simp add: bank_queues_open)
    also have "\<dots> = ins k c gs" using False by (simp add: ins_miss)
    finally have rg': "bank_queues (cf[bc := ?new]) (Suc bc) = grouped bank_key r_id (take (Suc i) ba)"
      using next_gs by simp
    have "bank_inv ba rc (Suc i) (cf[bc := ?new]) (Suc bc)"
      unfolding bank_inv_def
    proof (intro conjI allI impI)
      show "length (cf[bc := ?new]) = rc" using len by simp
      show "Suc bc \<le> rc" using bclt by simp
      show "bank_queues (cf[bc := ?new]) (Suc bc) = grouped bank_key r_id (take (Suc i) ba)"
        by (rule rg')
    next
      fix n assume "n < rc"
      thus "length (b_rows (cf[bc := ?new] ! n)) = BATCHSIZE"
        using cols len by (cases "n = bc") (simp_all add: new_bank_request_def)
    next
      fix n assume n: "n < Suc bc"
      show "b_valid (cf[bc := ?new] ! n) = 1"
        using flds n bcl' by (cases "n = bc") (simp_all add: new_bank_request_def)
      show "0 \<le> b_requests (cf[bc := ?new] ! n)"
        using flds n bcl' by (cases "n = bc") (simp_all add: new_bank_request_def)
      show "nat (b_requests (cf[bc := ?new] ! n)) \<le> BATCHSIZE"
        using flds n bcl' by (cases "n = bc") (simp_all add: new_bank_request_def BATCHSIZE_def)
    qed
    with find bclt show ?thesis by (intro exI [where x = False]) simp
  qed
qed

lemma bank_loop_inv:
  assumes "bank_inv ba rc i cf bc" and "i \<le> rc" and "rc \<le> length ba" and "rc \<le> BATCHSIZE"
  shows "\<exists>cf' bc'. bank_loop ba rc i cf bc = Inr (cf', bc') \<and> bank_inv ba rc rc cf' bc'"
  using assms
proof (induction "rc - i" arbitrary: i cf bc)
  case 0
  hence "i = rc" by simp
  with 0 show ?case by (subst bank_loop.simps) simp
next
  case (Suc d)
  from Suc.hyps(2) have lt: "i < rc" by simp
  hence il: "i < length ba" using Suc.prems(3) by simp
  from bank_step [OF Suc.prems(1) lt Suc.prems(3,4)] obtain found cf1 where
    find: "bank_find (ba ! i) cf bc 0 = Inr (found, cf1)" and
    hit: "found \<longrightarrow> bank_inv ba rc (Suc i) cf1 bc" and
    miss: "\<not> found \<longrightarrow> bc < rc \<and> cf1 = cf \<and>
              bank_inv ba rc (Suc i) (cf[bc := new_bank_request (cf ! bc) (ba ! i)]) (Suc bc)"
    by blast
  have d: "d = rc - Suc i" using Suc.hyps(2) by simp
  have le: "Suc i \<le> rc" using lt by simp
  show ?case
  proof (cases found)
    case True
    from Suc.hyps(1) [OF d _ le Suc.prems(3,4)] hit True obtain cf' bc' where
      "bank_loop ba rc (Suc i) cf1 bc = Inr (cf', bc')" "bank_inv ba rc rc cf' bc'"
      by blast
    with find True lt il show ?thesis by (subst bank_loop.simps) simp
  next
    case False
    with miss have bc: "bc < rc" and eq: "cf1 = cf" and
      inv': "bank_inv ba rc (Suc i) (cf[bc := new_bank_request (cf ! bc) (ba ! i)]) (Suc bc)"
      by simp_all
    from Suc.prems(1) bc have "length cf = rc" "length (b_rows (cf ! bc)) = BATCHSIZE"
      by (simp_all add: bank_inv_def)
    hence ok: "\<not> (length cf \<le> bc \<or> b_rows (cf ! bc) = [])" using bc by (auto simp: BATCHSIZE_def)
    from Suc.hyps(1) [OF d inv' le Suc.prems(3,4)] obtain cf' bc' where
      "bank_loop ba rc (Suc i) (cf[bc := new_bank_request (cf ! bc) (ba ! i)]) (Suc bc)
         = Inr (cf', bc')" "bank_inv ba rc rc cf' bc'"
      by blast
    with find False lt il eq ok show ?thesis by (subst bank_loop.simps) simp
  qed
qed

lemma bank_grouper_inv:
  assumes "rc \<le> length ba" and "rc \<le> BATCHSIZE"
  shows "\<exists>cf bc. bank_grouper junk ba rc = Inr (cf, bc) \<and> bank_inv ba rc rc cf bc"
  unfolding bank_grouper_def
  using bank_inv_init _ assms by (rule bank_loop_inv) simp

section \<open>The printing loops stay inside the arrays\<close>

lemma print_cells_ok:
  "nat requests \<le> length cells \<Longrightarrow> \<exists>s. print_cells cells requests j = Inr s"
proof (induction "nat requests - j" arbitrary: j)
  case 0
  hence "\<not> int j < requests" by simp
  thus ?case by (subst print_cells.simps) simp
next
  case (Suc d)
  from Suc.hyps(2) have lt: "int j < requests" by simp
  hence jl: "j < length cells" using Suc.prems by simp
  have "d = nat requests - (j + 1)" using Suc.hyps(2) by simp
  from Suc.hyps(1) [OF this Suc.prems] obtain s where
    "print_cells cells requests (j + 1) = Inr s" by blast
  with lt jl show ?case by (subst print_cells.simps) simp
qed

lemma print_aliased_ok:
  assumes "rc \<le> length ba" and "\<forall>n<rc. nat (r_requests (ba ! n)) \<le> length (r_col (ba ! n))"
  shows "\<exists>s. print_aliased ba rc i = Inr s"
proof (induction "rc - i" arbitrary: i)
  case 0
  thus ?case by (subst print_aliased.simps) simp
next
  case (Suc d)
  from Suc.hyps(2) have lt: "i < rc" by simp
  hence il: "i < length ba" using assms(1) by simp
  from assms(2) lt have "nat (r_requests (ba ! i)) \<le> length (r_col (ba ! i))" by simp
  from print_cells_ok [OF this] obtain cols where
    cols: "print_cells (r_col (ba ! i)) (r_requests (ba ! i)) 0 = Inr cols" by blast
  have "d = rc - (i + 1)" using Suc.hyps(2) by simp
  from Suc.hyps(1) [OF this] obtain s where "print_aliased ba rc (i + 1) = Inr s" by blast
  with lt il cols show ?case by (subst print_aliased.simps) simp
qed

lemma print_conflicts_ok:
  assumes "bc \<le> length cf" and "\<forall>n<bc. nat (b_requests (cf ! n)) \<le> length (b_rows (cf ! n))"
  shows "\<exists>s. print_conflicts cf bc i = Inr s"
proof (induction "bc - i" arbitrary: i)
  case 0
  thus ?case by (subst print_conflicts.simps) simp
next
  case (Suc d)
  from Suc.hyps(2) have lt: "i < bc" by simp
  hence il: "i < length cf" using assms(1) by simp
  from assms(2) lt have "nat (b_requests (cf ! i)) \<le> length (b_rows (cf ! i))" by simp
  from print_cells_ok [OF this] obtain rows where
    rows: "print_cells (b_rows (cf ! i)) (b_requests (cf ! i)) 0 = Inr rows" by blast
  have "d = bc - (i + 1)" using Suc.hyps(2) by simp
  from Suc.hyps(1) [OF this] obtain s where "print_conflicts cf bc (i + 1) = Inr s" by blast
  with lt il rows show ?case by (subst print_conflicts.simps) simp
qed

lemma alias_inv_print:
  assumes "alias_inv batch i ba rc"
  shows "rc \<le> length ba" and "\<forall>n<rc. nat (r_requests (ba ! n)) \<le> length (r_col (ba ! n))"
  using assms by (auto simp: alias_inv_def)

lemma bank_inv_print:
  assumes "bank_inv ba rc i cf bc"
  shows "bc \<le> length cf" and "\<forall>n<bc. nat (b_requests (cf ! n)) \<le> length (b_rows (cf ! n))"
  using assms by (auto simp: bank_inv_def)

section \<open>A call of scheduler on a batch of at least BATCHSIZE requests\<close>

lemma scheduler_inv:
  assumes "BATCHSIZE \<le> length batch"
  shows "\<exists>r. scheduler junk batch = Inr r
           \<and> row_aliaser junk batch = Inr (aliased_of r, row_counter_of r)
           \<and> bank_grouper junk (aliased_of r) (row_counter_of r)
               = Inr (conflicts_of r, bank_counter_of r)
           \<and> alias_inv batch BATCHSIZE (aliased_of r) (row_counter_of r)
           \<and> bank_inv (aliased_of r) (row_counter_of r) (row_counter_of r)
               (conflicts_of r) (bank_counter_of r)"
proof -
  from row_aliaser_inv [OF assms] obtain ba rc where
    ra: "row_aliaser junk batch = Inr (ba, rc)" and ai: "alias_inv batch BATCHSIZE ba rc"
    by blast
  from print_aliased_ok [OF alias_inv_print [OF ai]] obtain out1 where
    p1: "print_aliased ba rc 0 = Inr out1" by blast
  from ai have "rc \<le> length ba" "rc \<le> BATCHSIZE" by (simp_all add: alias_inv_def)
  from bank_grouper_inv [OF this] obtain cf bc where
    bg: "bank_grouper junk ba rc = Inr (cf, bc)" and bi: "bank_inv ba rc rc cf bc"
    by blast
  from print_conflicts_ok [OF bank_inv_print [OF bi]] obtain out2 where
    p2: "print_conflicts cf bc 0 = Inr out2" by blast
  from ra p1 bg p2 ai bi show ?thesis by (simp add: scheduler_def)
qed

section \<open>The valid flag and the requests behind the batch are not read\<close>

lemma alias_find_cong:
  "same_address p q \<Longrightarrow> alias_find p ba rc j = alias_find q ba rc j"
proof (induction "rc - j" arbitrary: j)
  case 0
  thus ?case by (simp add: alias_find.simps [of _ ba rc j])
next
  case (Suc d)
  have "alias_find p ba rc (j + 1) = alias_find q ba rc (j + 1)"
    using Suc.hyps(2) Suc.prems by (intro Suc.hyps(1)) simp_all
  with Suc.prems show ?case
    by (simp add: alias_find.simps [of _ ba rc j] same_address_def)
qed

lemma new_row_request_cong:
  "same_address p q \<Longrightarrow> new_row_request e p rc = new_row_request e q rc"
  by (simp add: new_row_request_def same_address_def)

lemma alias_loop_cong:
  assumes "\<forall>n. i \<le> n \<and> n < BATCHSIZE \<longrightarrow>
             (length b1 \<le> n \<longleftrightarrow> length b2 \<le> n) \<and> (n < length b1 \<longrightarrow> same_address (b1 ! n) (b2 ! n))"
  shows "alias_loop b1 i ba rc = alias_loop b2 i ba rc"
  using assms
proof (induction "BATCHSIZE - i" arbitrary: i ba rc)
  case 0
  thus ?case by (simp add: alias_loop.simps [of _ i ba rc])
next
  case (Suc d)
  from Suc.hyps(2) have lt: "i < BATCHSIZE" by simp
  with Suc.prems have len: "length b1 \<le> i \<longleftrightarrow> length b2 \<le> i"
    and same: "i < length b1 \<longrightarrow> same_address (b1 ! i) (b2 ! i)" by simp_all
  have rest: "\<And>ba' rc'. alias_loop b1 (i + 1) ba' rc' = alias_loop b2 (i + 1) ba' rc'"
    using Suc.hyps(2) Suc.prems by (intro Suc.hyps(1)) simp_all
  show ?case
  proof (cases "length b1 \<le> i")
    case True
    with len lt show ?thesis by (simp add: alias_loop.simps [of _ i ba rc])
  next
    case False
    with same have sa: "same_address (b1 ! i) (b2 ! i)" by simp
    from False len have "\<not> length b2 \<le> i" by simp
    with False lt rest show ?thesis
      by (simp add: alias_loop.simps [of _ i ba rc] alias_find_cong [OF sa]
            new_row_request_cong [OF sa] split: sum.splits prod.splits)
  qed
qed

lemma scheduler_cong:
  assumes "row_aliaser junk b1 = row_aliaser junk b2"
  shows "scheduler junk b1 = scheduler junk b2"
  using assms by (simp add: scheduler_def)

lemma same_address_refl: "same_address p p"
  by (simp add: same_address_def)

lemma scheduler_take:
  assumes "BATCHSIZE \<le> length batch"
  shows "scheduler junk batch = scheduler junk (take BATCHSIZE batch)"
proof (rule scheduler_cong)
  show "row_aliaser junk batch = row_aliaser junk (take BATCHSIZE batch)"
    unfolding row_aliaser_def
    using assms by (intro alias_loop_cong) (auto simp: same_address_refl)
qed

lemma scheduler_same_address:
  assumes "list_all2 same_address b1 b2"
  shows "scheduler junk b1 = scheduler junk b2"
proof (rule scheduler_cong)
  from assms have len: "length b1 = length b2" by (rule list_all2_lengthD)
  show "row_aliaser junk b1 = row_aliaser junk b2"
    unfolding row_aliaser_def
  proof (rule alias_loop_cong, intro allI impI conjI)
    fix n
    show "length b1 \<le> n \<longleftrightarrow> length b2 \<le> n" using len by simp
    assume "n < length b1"
    with assms show "same_address (b1 ! n) (b2 ! n)" by (rule list_all2_nthD)
  qed
qed

section \<open>Bounds on the loop iterations\<close>

lemma T_alias_find_le: "T_alias_find rq ba rc j \<le> rc - j"
proof (induction "rc - j" arbitrary: j)
  case 0
  thus ?case by (simp add: T_alias_find.simps [of rq ba rc j])
next
  case (Suc d)
  have "T_alias_find rq ba rc (j + 1) \<le> rc - (j + 1)"
    using Suc.hyps(2) by (intro Suc.hyps(1)) simp
  hence "1 + T_alias_find rq ba rc (j + 1) \<le> rc - j" using Suc.hyps(2) by linarith
  moreover have "1 \<le> rc - j" using Suc.hyps(2) by linarith
  ultimately show ?case by (simp add: T_alias_find.simps [of rq ba rc j])
qed

lemma T_bank_find_le: "T_bank_find rr cf bc j \<le> bc - j"
proof (induction "bc - j" arbitrary: j)
  case 0
  thus ?case by (simp add: T_bank_find.simps [of rr cf bc j])
next
  case (Suc d)
  have "T_bank_find rr cf bc (j + 1) \<le> bc - (j + 1)"
    using Suc.hyps(2) by (intro Suc.hyps(1)) simp
  hence "1 + T_bank_find rr cf bc (j + 1) \<le> bc - j" using Suc.hyps(2) by linarith
  moreover have "1 \<le> bc - j" using Suc.hyps(2) by linarith
  ultimately show ?case by (simp add: T_bank_find.simps [of rr cf bc j])
qed

lemma T_print_cells_le: "T_print_cells cells requests j \<le> nat requests - j"
proof (induction "nat requests - j" arbitrary: j)
  case 0
  hence "\<not> int j < requests" by simp
  thus ?case by (simp add: T_print_cells.simps [of cells requests j])
next
  case (Suc d)
  have "T_print_cells cells requests (j + 1) \<le> nat requests - (j + 1)"
    using Suc.hyps(2) by (intro Suc.hyps(1)) simp
  hence "1 + T_print_cells cells requests (j + 1) \<le> nat requests - j"
    using Suc.hyps(2) by linarith
  moreover have "1 \<le> nat requests - j" using Suc.hyps(2) by linarith
  ultimately show ?case by (simp add: T_print_cells.simps [of cells requests j])
qed

lemma T_alias_loop_le:
  "rc \<le> i \<Longrightarrow> T_alias_loop batch i ba rc \<le> (BATCHSIZE - i) * BATCHSIZE"
proof (induction "BATCHSIZE - i" arbitrary: i ba rc)
  case 0
  thus ?case by (simp add: T_alias_loop.simps [of batch i ba rc])
next
  case (Suc d)
  from Suc.hyps(2) have lt: "i < BATCHSIZE" and d: "d = BATCHSIZE - (i + 1)" by simp_all
  have rest: "\<And>ba' rc'. rc' \<le> i + 1 \<Longrightarrow> T_alias_loop batch (i + 1) ba' rc' \<le> d * BATCHSIZE"
    using Suc.hyps(1) [OF d] d by simp
  have "T_alias_find (batch ! i) ba rc 0 \<le> rc" using T_alias_find_le [of _ ba rc 0] by simp
  hence find: "1 + T_alias_find (batch ! i) ba rc 0 \<le> BATCHSIZE" using Suc.prems lt by simp
  have "T_alias_loop batch i ba rc \<le> BATCHSIZE + d * BATCHSIZE"
  proof (cases "length batch \<le> i")
    case True
    with lt show ?thesis by (simp add: T_alias_loop.simps [of batch i ba rc])
  next
    case False
    show ?thesis
    proof (cases "alias_find (batch ! i) ba rc 0")
      case (Inl e)
      with False lt find show ?thesis by (simp add: T_alias_loop.simps [of batch i ba rc])
    next
      case (Inr p)
      obtain found aliased where p: "p = (found, aliased)" by (cases p)
      have a: "T_alias_loop batch (i + 1) aliased rc \<le> d * BATCHSIZE"
        using Suc.prems by (intro rest) simp
      have b: "T_alias_loop batch (i + 1)
                 (aliased[rc := new_row_request (aliased ! rc) (batch ! i) rc]) (rc + 1)
               \<le> d * BATCHSIZE"
        using Suc.prems by (intro rest) simp
      from False lt find Inr p a b show ?thesis
        by (simp add: T_alias_loop.simps [of batch i ba rc])
    qed
  qed
  also have "BATCHSIZE + d * BATCHSIZE = (BATCHSIZE - i) * BATCHSIZE"
    using Suc.hyps(2) [symmetric] by simp
  finally show ?case .
qed

lemma T_bank_loop_le:
  "bc \<le> i \<Longrightarrow> T_bank_loop ba rc i cf bc \<le> (rc - i) * rc"
proof (induction "rc - i" arbitrary: i cf bc)
  case 0
  thus ?case by (simp add: T_bank_loop.simps [of ba rc i cf bc])
next
  case (Suc d)
  from Suc.hyps(2) have lt: "i < rc" and d: "d = rc - (i + 1)" by simp_all
  have rest: "\<And>cf' bc'. bc' \<le> i + 1 \<Longrightarrow> T_bank_loop ba rc (i + 1) cf' bc' \<le> d * rc"
    using Suc.hyps(1) [OF d] d by simp
  have "T_bank_find (ba ! i) cf bc 0 \<le> bc" using T_bank_find_le [of _ cf bc 0] by simp
  hence find: "1 + T_bank_find (ba ! i) cf bc 0 \<le> rc" using Suc.prems lt by simp
  have "T_bank_loop ba rc i cf bc \<le> rc + d * rc"
  proof (cases "length ba \<le> i")
    case True
    with lt show ?thesis by (simp add: T_bank_loop.simps [of ba rc i cf bc])
  next
    case False
    show ?thesis
    proof (cases "bank_find (ba ! i) cf bc 0")
      case (Inl e)
      with False lt find show ?thesis by (simp add: T_bank_loop.simps [of ba rc i cf bc])
    next
      case (Inr p)
      obtain found conflicts where p: "p = (found, conflicts)" by (cases p)
      have a: "T_bank_loop ba rc (i + 1) conflicts bc \<le> d * rc"
        using Suc.prems by (intro rest) simp
      have b: "T_bank_loop ba rc (i + 1)
                 (conflicts[bc := new_bank_request (conflicts ! bc) (ba ! i)]) (bc + 1)
               \<le> d * rc"
        using Suc.prems by (intro rest) simp
      from False lt find Inr p a b show ?thesis
        by (simp add: T_bank_loop.simps [of ba rc i cf bc])
    qed
  qed
  also have "rc + d * rc = (rc - i) * rc"
    using Suc.hyps(2) [symmetric] by simp
  finally show ?case .
qed

lemma T_print_aliased_le:
  assumes "\<forall>n<rc. nat (r_requests (ba ! n)) \<le> BATCHSIZE"
  shows "T_print_aliased ba rc i \<le> (rc - i) * (1 + BATCHSIZE)"
proof (induction "rc - i" arbitrary: i)
  case 0
  thus ?case by (simp add: T_print_aliased.simps [of ba rc i])
next
  case (Suc d)
  from Suc.hyps(2) have lt: "i < rc" and d: "d = rc - (i + 1)" by simp_all
  have rest: "T_print_aliased ba rc (i + 1) \<le> d * (1 + BATCHSIZE)"
    using Suc.hyps(1) [OF d] d by simp
  have "T_print_cells (r_col (ba ! i)) (r_requests (ba ! i)) 0 \<le> nat (r_requests (ba ! i))"
    using T_print_cells_le [of _ "r_requests (ba ! i)" 0] by simp
  also have "\<dots> \<le> BATCHSIZE" using assms lt by simp
  finally have cells: "T_print_cells (r_col (ba ! i)) (r_requests (ba ! i)) 0 \<le> BATCHSIZE" .
  have "T_print_aliased ba rc i \<le> (1 + BATCHSIZE) + d * (1 + BATCHSIZE)"
    using lt rest cells by (simp add: T_print_aliased.simps [of ba rc i])
  also have "(1 + BATCHSIZE) + d * (1 + BATCHSIZE) = (rc - i) * (1 + BATCHSIZE)"
    using Suc.hyps(2) [symmetric] by simp
  finally show ?case .
qed

lemma T_print_conflicts_le:
  assumes "\<forall>n<bc. nat (b_requests (cf ! n)) \<le> BATCHSIZE"
  shows "T_print_conflicts cf bc i \<le> (bc - i) * (1 + BATCHSIZE)"
proof (induction "bc - i" arbitrary: i)
  case 0
  thus ?case by (simp add: T_print_conflicts.simps [of cf bc i])
next
  case (Suc d)
  from Suc.hyps(2) have lt: "i < bc" and d: "d = bc - (i + 1)" by simp_all
  have rest: "T_print_conflicts cf bc (i + 1) \<le> d * (1 + BATCHSIZE)"
    using Suc.hyps(1) [OF d] d by simp
  have "T_print_cells (b_rows (cf ! i)) (b_requests (cf ! i)) 0 \<le> nat (b_requests (cf ! i))"
    using T_print_cells_le [of _ "b_requests (cf ! i)" 0] by simp
  also have "\<dots> \<le> BATCHSIZE" using assms lt by simp
  finally have cells: "T_print_cells (b_rows (cf ! i)) (b_requests (cf ! i)) 0 \<le> BATCHSIZE" .
  have "T_print_conflicts cf bc i \<le> (1 + BATCHSIZE) + d * (1 + BATCHSIZE)"
    using lt rest cells by (simp add: T_print_conflicts.simps [of cf bc i])
  also have "(1 + BATCHSIZE) + d * (1 + BATCHSIZE) = (bc - i) * (1 + BATCHSIZE)"
    using Suc.hyps(2) [symmetric] by simp
  finally show ?case .
qed

lemma T_scheduler_le:
  assumes "BATCHSIZE \<le> length batch"
  shows "T_scheduler junk batch \<le> 4 * BATCHSIZE * BATCHSIZE + 2 * BATCHSIZE"
proof -
  from scheduler_inv [OF assms, where junk = junk] obtain r :: outcome where
    ra: "row_aliaser junk batch = Inr (aliased_of r, row_counter_of r)" and
    bg: "bank_grouper junk (aliased_of r) (row_counter_of r)
           = Inr (conflicts_of r, bank_counter_of r)" and
    ai: "alias_inv batch BATCHSIZE (aliased_of r) (row_counter_of r)" and
    bi: "bank_inv (aliased_of r) (row_counter_of r) (row_counter_of r)
           (conflicts_of r) (bank_counter_of r)"
    by blast
  define ba rc cf bc where "ba = aliased_of r" and "rc = row_counter_of r"
    and "cf = conflicts_of r" and "bc = bank_counter_of r"
  note ra = ra [folded ba_def rc_def] and bg = bg [folded ba_def rc_def cf_def bc_def]
    and ai = ai [folded ba_def rc_def] and bi = bi [folded ba_def rc_def cf_def bc_def]
  from ai have rcB: "rc \<le> BATCHSIZE"
    and rq: "\<forall>n<rc. nat (r_requests (ba ! n)) \<le> BATCHSIZE" by (simp_all add: alias_inv_def)
  from bi have bcr: "bc \<le> rc"
    and bq: "\<forall>n<bc. nat (b_requests (cf ! n)) \<le> BATCHSIZE" by (simp_all add: bank_inv_def)
  have t1: "T_alias_loop batch 0 (replicate BATCHSIZE (uninit_row_request junk)) 0
              \<le> BATCHSIZE * BATCHSIZE"
    using T_alias_loop_le [of 0 0 batch] by simp
  have "T_print_aliased ba rc 0 \<le> rc * (1 + BATCHSIZE)"
    using T_print_aliased_le [OF rq, of 0] by simp
  also have "\<dots> \<le> BATCHSIZE * (1 + BATCHSIZE)" using rcB by (rule mult_le_mono1)
  finally have t2: "T_print_aliased ba rc 0 \<le> BATCHSIZE + BATCHSIZE * BATCHSIZE" by simp
  have "T_bank_loop ba rc 0 (replicate rc (uninit_bank_request junk)) 0 \<le> rc * rc"
    using T_bank_loop_le [of 0 0 ba rc] by simp
  also have "\<dots> \<le> BATCHSIZE * BATCHSIZE" using rcB rcB by (rule mult_le_mono)
  finally have t3: "T_bank_loop ba rc 0 (replicate rc (uninit_bank_request junk)) 0
                      \<le> BATCHSIZE * BATCHSIZE" .
  have "T_print_conflicts cf bc 0 \<le> bc * (1 + BATCHSIZE)"
    using T_print_conflicts_le [OF bq, of 0] by simp
  also have "\<dots> \<le> BATCHSIZE * (1 + BATCHSIZE)" using bcr rcB by (intro mult_le_mono1) simp
  finally have t4: "T_print_conflicts cf bc 0 \<le> BATCHSIZE + BATCHSIZE * BATCHSIZE" by simp
  have "T_scheduler junk batch =
          T_alias_loop batch 0 (replicate BATCHSIZE (uninit_row_request junk)) 0
          + (T_print_aliased ba rc 0
             + T_bank_loop ba rc 0 (replicate rc (uninit_bank_request junk)) 0
             + T_print_conflicts cf bc 0)"
    by (simp add: T_scheduler_def ra bg)
  with t1 t2 t3 t4 show ?thesis by simp
qed

section \<open>The only error is an access outside an array\<close>

lemma alias_find_error: "alias_find rq ba rc j = Inl e \<Longrightarrow> e = OutOfBounds"
proof (induction "rc - j" arbitrary: j)
  case 0
  thus ?case by (simp add: alias_find.simps [of rq ba rc j])
next
  case (Suc d)
  have "alias_find rq ba rc (j + 1) = Inl e \<Longrightarrow> e = OutOfBounds"
    using Suc.hyps(2) by (intro Suc.hyps(1)) simp_all
  with Suc.prems show ?case
    by (simp add: alias_find.simps [of rq ba rc j] split: if_splits)
qed

lemma alias_loop_error: "alias_loop batch i ba rc = Inl e \<Longrightarrow> e = OutOfBounds"
proof (induction "BATCHSIZE - i" arbitrary: i ba rc)
  case 0
  thus ?case by (simp add: alias_loop.simps [of batch i ba rc])
next
  case (Suc d)
  have rest: "\<And>ba' rc'. alias_loop batch (Suc i) ba' rc' = Inl e \<Longrightarrow> e = OutOfBounds"
    using Suc.hyps(2) by (intro Suc.hyps(1)) simp_all
  from Suc.prems show ?case
    by (auto simp: alias_loop.simps [of batch i ba rc]
          split: if_splits sum.splits prod.splits dest: alias_find_error rest)
qed

lemma bank_find_error: "bank_find rr cf bc j = Inl e \<Longrightarrow> e = OutOfBounds"
proof (induction "bc - j" arbitrary: j)
  case 0
  thus ?case by (simp add: bank_find.simps [of rr cf bc j])
next
  case (Suc d)
  have "bank_find rr cf bc (Suc j) = Inl e \<Longrightarrow> e = OutOfBounds"
    using Suc.hyps(2) by (intro Suc.hyps(1)) simp_all
  with Suc.prems show ?case
    by (simp add: bank_find.simps [of rr cf bc j] split: if_splits)
qed

lemma bank_loop_error: "bank_loop ba rc i cf bc = Inl e \<Longrightarrow> e = OutOfBounds"
proof (induction "rc - i" arbitrary: i cf bc)
  case 0
  thus ?case by (simp add: bank_loop.simps [of ba rc i cf bc])
next
  case (Suc d)
  have rest: "\<And>cf' bc'. bank_loop ba rc (Suc i) cf' bc' = Inl e \<Longrightarrow> e = OutOfBounds"
    using Suc.hyps(2) by (intro Suc.hyps(1)) simp_all
  from Suc.prems show ?case
    by (auto simp: bank_loop.simps [of ba rc i cf bc]
          split: if_splits sum.splits prod.splits dest: bank_find_error rest)
qed

lemma print_cells_error: "print_cells cells requests j = Inl e \<Longrightarrow> e = OutOfBounds"
proof (induction "nat requests - j" arbitrary: j)
  case 0
  hence "\<not> int j < requests" by simp
  with 0 show ?case by (simp add: print_cells.simps [of cells requests j])
next
  case (Suc d)
  have rest: "print_cells cells requests (Suc j) = Inl e \<Longrightarrow> e = OutOfBounds"
    using Suc.hyps(2) by (intro Suc.hyps(1)) simp_all
  from Suc.prems show ?case
    by (auto simp: print_cells.simps [of cells requests j]
          split: if_splits sum.splits dest: rest)
qed

lemma print_aliased_error: "print_aliased ba rc i = Inl e \<Longrightarrow> e = OutOfBounds"
proof (induction "rc - i" arbitrary: i)
  case 0
  thus ?case by (simp add: print_aliased.simps [of ba rc i])
next
  case (Suc d)
  have rest: "print_aliased ba rc (Suc i) = Inl e \<Longrightarrow> e = OutOfBounds"
    using Suc.hyps(2) by (intro Suc.hyps(1)) simp_all
  from Suc.prems show ?case
    by (auto simp: print_aliased.simps [of ba rc i]
          split: if_splits sum.splits dest: print_cells_error rest)
qed

lemma print_conflicts_error: "print_conflicts cf bc i = Inl e \<Longrightarrow> e = OutOfBounds"
proof (induction "bc - i" arbitrary: i)
  case 0
  thus ?case by (simp add: print_conflicts.simps [of cf bc i])
next
  case (Suc d)
  have rest: "print_conflicts cf bc (Suc i) = Inl e \<Longrightarrow> e = OutOfBounds"
    using Suc.hyps(2) by (intro Suc.hyps(1)) simp_all
  from Suc.prems show ?case
    by (auto simp: print_conflicts.simps [of cf bc i]
          split: if_splits sum.splits dest: print_cells_error rest)
qed

lemma scheduler_error: "scheduler junk batch = Inl e \<Longrightarrow> e = OutOfBounds"
  by (auto simp: scheduler_def row_aliaser_def bank_grouper_def
        split: sum.splits prod.splits
        dest: alias_loop_error print_aliased_error bank_loop_error print_conflicts_error)

lemma alias_loop_short:
  "i \<le> length batch \<Longrightarrow> length batch < BATCHSIZE \<Longrightarrow> \<exists>e. alias_loop batch i ba rc = Inl e"
proof (induction "length batch - i" arbitrary: i ba rc)
  case 0
  thus ?case by (simp add: alias_loop.simps [of batch i ba rc])
next
  case (Suc d)
  have rest: "\<And>ba' rc'. \<exists>e. alias_loop batch (i + 1) ba' rc' = Inl e"
    using Suc.hyps(2) Suc.prems by (intro Suc.hyps(1)) simp_all
  from Suc.hyps(2) Suc.prems have "i < BATCHSIZE" "\<not> length batch \<le> i" by simp_all
  thus ?case using rest
    by (simp add: alias_loop.simps [of batch i ba rc] split: sum.splits prod.splits)
qed

lemma T_scheduler_short:
  assumes "length batch < BATCHSIZE"
  shows "T_scheduler junk batch \<le> BATCHSIZE * BATCHSIZE"
proof -
  from alias_loop_short [of 0 batch] assms obtain e where
    "row_aliaser junk batch = Inl e" unfolding row_aliaser_def by blast
  thus ?thesis using T_alias_loop_le [of 0 0 batch] by (simp add: T_scheduler_def)
qed

lemma T_scheduler_bound:
  "T_scheduler junk batch \<le> 4 * BATCHSIZE * BATCHSIZE + 2 * BATCHSIZE"
proof (cases "BATCHSIZE \<le> length batch")
  case True
  thus ?thesis by (rule T_scheduler_le)
next
  case False
  hence "length batch < BATCHSIZE" by simp
  from T_scheduler_short [OF this, of junk] show ?thesis by simp
qed

section \<open>Consequences of the invariants\<close>

lemma snd_members: "map snd (members gs) = concat (map snd gs)"
  by (induction gs) (simp_all add: members_def comp_def)

lemma alias_inv_ids:
  assumes "alias_inv batch i ba rc"
  shows "row_ids ba rc = map int [1..<rc + 1]"
proof (rule nth_equalityI)
  from assms have len: "rc \<le> length ba" by (simp add: alias_inv_def)
  thus "length (row_ids ba rc) = length (map int [1..<rc + 1])" by (simp add: row_ids_def)
  fix n assume "n < length (row_ids ba rc)"
  hence n: "n < rc" using len by (simp add: row_ids_def)
  with assms have "r_id (ba ! n) = int n + 1" by (simp add: alias_inv_def)
  with n len show "row_ids ba rc ! n = map int [1..<rc + 1] ! n"
    by (simp add: row_ids_def nth_map_upt [symmetric] del: upt_Suc)
qed

lemma distinct_ids: "distinct (map int [1..<rc + 1])"
  by (simp add: distinct_map inj_on_def del: upt_Suc)

lemma distinct_grouped: "distinct (map fst (grouped key val xs))"
  by (simp add: map_fst_grouped)

lemma row_aliaser_same_address:
  assumes "list_all2 same_address b1 b2"
  shows "row_aliaser junk b1 = row_aliaser junk b2"
proof -
  from assms have len: "length b1 = length b2" by (rule list_all2_lengthD)
  show ?thesis
    unfolding row_aliaser_def
  proof (rule alias_loop_cong, intro allI impI conjI)
    fix n
    show "length b1 \<le> n \<longleftrightarrow> length b2 \<le> n" using len by simp
    assume "n < length b1"
    with assms show "same_address (b1 ! n) (b2 ! n)" by (rule list_all2_nthD)
  qed
qed

lemma grouped_entry:
  assumes "x \<in> set xs"
  shows "\<exists>vs. (key x, vs) \<in> set (grouped key val xs) \<and> val x \<in> set vs"
proof -
  let ?vs = "map val (filter (\<lambda>y. key y = key x) xs)"
  from assms have "key x \<in> set (first_seen (map key xs))" by simp
  hence "(key x, ?vs) \<in> set (grouped key val xs)" by (auto simp: grouped_def)
  moreover from assms have "val x \<in> set ?vs" by auto
  ultimately show ?thesis by blast
qed

lemma grouped_first_entry:
  assumes i: "i < length xs" and first: "\<forall>j<i. key (xs ! j) \<noteq> key (xs ! i)"
  shows "\<exists>vs. (key (xs ! i), val (xs ! i) # vs) \<in> set (grouped key val xs)"
proof -
  let ?P = "\<lambda>y. key y = key (xs ! i)"
  have split: "xs = take i xs @ xs ! i # drop (Suc i) xs" using i by (rule id_take_nth_drop)
  have "filter ?P (take i xs) = []"
  proof (simp add: filter_empty_conv, intro ballI)
    fix y assume "y \<in> set (take i xs)"
    then obtain j where j: "j < length (take i xs)" "take i xs ! j = y"
      by (auto simp: in_set_conv_nth)
    hence "j < i" "xs ! j = y" by simp_all
    with first show "key y \<noteq> key (xs ! i)" by blast
  qed
  hence "filter ?P xs = xs ! i # filter ?P (drop (Suc i) xs)"
    by (subst split) simp
  hence vs: "map val (filter ?P xs) = val (xs ! i) # map val (filter ?P (drop (Suc i) xs))"
    by simp
  from i have "key (xs ! i) \<in> set (first_seen (map key xs))" by simp
  hence "(key (xs ! i), map val (filter ?P xs)) \<in> set (grouped key val xs)"
    by (auto simp: grouped_def)
  with vs show ?thesis by auto
qed

text \<open>
  Whatever the batch, the text of a call that returns ends with the header \<open>SCHEDULE:\<close>:
  nothing is printed for the scheduling step.
\<close>

lemma scheduler_prints_header_last:
  "scheduler junk batch = Inr r \<Longrightarrow> \<exists>body. stdout_of r = body @ ''SCHEDULE:\<newline>''"
  by (auto simp: scheduler_def split: sum.splits prod.splits)

section \<open>The claims\<close>

text \<open>
  C2, as the code has it. The row aliaser groups the first \<open>BATCHSIZE\<close> requests, valid
  or not, by bank group, bank and row: one row group for each key, in the order in which
  the keys are first seen among all these requests, holding the columns of all requests
  with that key in the order of the batch, duplicates included; the identifiers count
  from 1 in that order.
\<close>

theorem row_aliaser_groups:
  assumes "BATCHSIZE \<le> length req_batch"
  shows "\<exists>ba rc. row_aliaser junk req_batch = Inr (ba, rc)
           \<and> row_groups ba rc = grouped req_key col (take BATCHSIZE req_batch)
           \<and> distinct (map fst (row_groups ba rc))
           \<and> row_ids ba rc = map int [1..<rc + 1]"
proof -
  from row_aliaser_inv [OF assms, where junk = junk] obtain ba rc where
    ra: "row_aliaser junk req_batch = Inr (ba, rc)" and
    ai: "alias_inv req_batch BATCHSIZE ba rc" by blast
  from ai have rg: "row_groups ba rc = grouped req_key col (take BATCHSIZE req_batch)"
    by (simp add: alias_inv_def)
  hence "distinct (map fst (row_groups ba rc))" by (simp add: distinct_grouped)
  with ra rg alias_inv_ids [OF ai] show ?thesis by blast
qed

text \<open>The batch of \<open>main\<close>: four row groups, the first with the columns 6 and 3.\<close>

theorem row_aliaser_groups_witness:
  "BATCHSIZE \<le> length main_batch
   \<and> (\<exists>ba rc. row_aliaser 0 main_batch = Inr (ba, rc)
        \<and> row_groups ba rc = [((0, 0, 1), [6, 3]), ((0, 0, 2), [5]), ((0, 0, 4), [4]),
             ((2, 1, 2), [2])]
        \<and> row_ids ba rc = map int [1..<rc + 1])"
proof -
  have h: "BATCHSIZE \<le> length main_batch" by code_simp
  have g: "grouped req_key col (take BATCHSIZE main_batch) =
      [((0, 0, 1), [6, 3]), ((0, 0, 2), [5]), ((0, 0, 4), [4]), ((2, 1, 2), [2])]"
    by code_simp
  from row_aliaser_groups [OF h, of 0] show ?thesis unfolding g using h by blast
qed

text \<open>
  C2 as the specification states it, of the valid requests, fails on a batch with an
  invalid request in front: that request opens the first row group and takes the
  identifier 1, and its column 70 stands before the column 5 of the valid request with
  its key; the valid requests alone would give two row groups, in the other order.
\<close>

theorem invalid_entry_shifts_row_groups:
  "scheduled_row_groups 0 shifted_batch
     = Inr [((0, 0, 9), [70, 5]), ((0, 0, 1), [6, 3]), ((3, 3, 3), [33])]
   \<and> map_sum id (\<lambda>r. row_ids (aliased_of r) (row_counter_of r)) (scheduler 0 shifted_batch)
     = Inr [1, 2, 3]
   \<and> grouped req_key col (valid_requests shifted_batch)
     = [((0, 0, 1), [6, 3]), ((0, 0, 9), [5])]
   \<and> scheduled_row_groups 0 shifted_batch
     \<noteq> Inr (grouped req_key col (valid_requests shifted_batch))"
proof -
  have a: "scheduled_row_groups 0 shifted_batch
     = Inr [((0, 0, 9), [70, 5]), ((0, 0, 1), [6, 3]), ((3, 3, 3), [33])]"
    by code_simp
  have b: "map_sum id (\<lambda>r. row_ids (aliased_of r) (row_counter_of r)) (scheduler 0 shifted_batch)
     = Inr [1, 2, 3]"
    by code_simp
  have c: "grouped req_key col (valid_requests shifted_batch)
     = [((0, 0, 1), [6, 3]), ((0, 0, 9), [5])]"
    by code_simp
  show ?thesis unfolding a b c by simp
qed

text \<open>
  C3, as the code has it. The row aliaser does not read the \<open>valid\<close> flag: a batch
  that differs in its flags alone leaves the same array and counter. Each of the first
  \<open>BATCHSIZE\<close> requests, whatever its flag, has its column in the one row group of its
  bank group, bank and row, and stands first there when no request before it has that
  key; the row groups are the grouping of all these requests, they hold \<open>BATCHSIZE\<close>
  columns, and there is at least one row group.
\<close>

theorem row_aliaser_takes_every_entry:
  assumes "BATCHSIZE \<le> length req_batch"
  shows "\<exists>ba rc. row_aliaser junk req_batch = Inr (ba, rc)
           \<and> (\<forall>batch2. list_all2 same_address req_batch batch2
                 \<longrightarrow> row_aliaser junk batch2 = Inr (ba, rc))
           \<and> row_groups ba rc = grouped req_key col (take BATCHSIZE req_batch)
           \<and> distinct (map fst (row_groups ba rc))
           \<and> (\<forall>i<BATCHSIZE. \<exists>cs. (req_key (req_batch ! i), cs) \<in> set (row_groups ba rc)
                 \<and> col (req_batch ! i) \<in> set cs)
           \<and> (\<forall>i<BATCHSIZE. (\<forall>j<i. req_key (req_batch ! j) \<noteq> req_key (req_batch ! i))
                 \<longrightarrow> (\<exists>cs. (req_key (req_batch ! i), col (req_batch ! i) # cs)
                        \<in> set (row_groups ba rc)))
           \<and> (\<forall>i<BATCHSIZE. (req_key (req_batch ! i), col (req_batch ! i))
                  \<in> set (members (row_groups ba rc)))
           \<and> length (members (row_groups ba rc)) = BATCHSIZE
           \<and> 1 \<le> rc"
proof -
  from row_aliaser_inv [OF assms, where junk = junk] obtain ba rc where
    ra: "row_aliaser junk req_batch = Inr (ba, rc)" and
    ai: "alias_inv req_batch BATCHSIZE ba rc" by blast
  let ?xs = "take BATCHSIZE req_batch"
  from ai have rg: "row_groups ba rc = grouped req_key col ?xs" and len: "rc \<le> length ba"
    by (simp_all add: alias_inv_def)
  have lxs: "length ?xs = BATCHSIZE" using assms by simp
  have nth: "\<And>i. i < BATCHSIZE \<Longrightarrow> ?xs ! i = req_batch ! i" by simp
  have flag: "\<forall>batch2. list_all2 same_address req_batch batch2
                 \<longrightarrow> row_aliaser junk batch2 = Inr (ba, rc)"
    using row_aliaser_same_address [of req_batch _ junk] ra by auto
  have dist: "distinct (map fst (row_groups ba rc))" unfolding rg by (rule distinct_grouped)
  have every: "\<forall>i<BATCHSIZE. \<exists>cs. (req_key (req_batch ! i), cs) \<in> set (row_groups ba rc)
                 \<and> col (req_batch ! i) \<in> set cs"
  proof (intro allI impI)
    fix i assume i: "i < BATCHSIZE"
    hence "?xs ! i \<in> set ?xs" using lxs by (intro nth_mem) simp
    from grouped_entry [OF this, of req_key col] nth [OF i]
    show "\<exists>cs. (req_key (req_batch ! i), cs) \<in> set (row_groups ba rc)
            \<and> col (req_batch ! i) \<in> set cs" unfolding rg by simp
  qed
  have opens: "\<forall>i<BATCHSIZE. (\<forall>j<i. req_key (req_batch ! j) \<noteq> req_key (req_batch ! i))
                 \<longrightarrow> (\<exists>cs. (req_key (req_batch ! i), col (req_batch ! i) # cs)
                        \<in> set (row_groups ba rc))"
  proof (intro allI impI)
    fix i assume i: "i < BATCHSIZE"
      and first: "\<forall>j<i. req_key (req_batch ! j) \<noteq> req_key (req_batch ! i)"
    have il: "i < length ?xs" using i lxs by simp
    have "\<forall>j<i. req_key (?xs ! j) \<noteq> req_key (?xs ! i)"
    proof (intro allI impI)
      fix j assume "j < i"
      with first i show "req_key (?xs ! j) \<noteq> req_key (?xs ! i)" by simp
    qed
    from grouped_first_entry [OF il this, of col] nth [OF i]
    show "\<exists>cs. (req_key (req_batch ! i), col (req_batch ! i) # cs) \<in> set (row_groups ba rc)"
      unfolding rg by simp
  qed
  have ms: "mset (members (row_groups ba rc)) = mset (map (\<lambda>rq. (req_key rq, col rq)) ?xs)"
    unfolding rg by (rule members_grouped)
  have a: "\<forall>i<BATCHSIZE. (req_key (req_batch ! i), col (req_batch ! i))
             \<in> set (members (row_groups ba rc))"
  proof (intro allI impI)
    fix i assume i: "i < BATCHSIZE"
    hence "req_batch ! i \<in> set ?xs" using assms by (auto simp: in_set_conv_nth)
    hence "(\<lambda>rq. (req_key rq, col rq)) (req_batch ! i)
             \<in> (\<lambda>rq. (req_key rq, col rq)) ` set ?xs" by (rule imageI)
    hence "(req_key (req_batch ! i), col (req_batch ! i))
             \<in> set (map (\<lambda>rq. (req_key rq, col rq)) ?xs)" by simp
    also have "set (map (\<lambda>rq. (req_key rq, col rq)) ?xs) = set (members (row_groups ba rc))"
      using ms by (rule mset_eq_setD [symmetric])
    finally show "(req_key (req_batch ! i), col (req_batch ! i))
                    \<in> set (members (row_groups ba rc))" .
  qed
  have "length (members (row_groups ba rc)) = length (map (\<lambda>rq. (req_key rq, col rq)) ?xs)"
    using ms by (rule mset_eq_length)
  hence b: "length (members (row_groups ba rc)) = BATCHSIZE" using assms by simp
  have "?xs \<noteq> []" using assms by (auto simp: BATCHSIZE_def)
  hence "grouped req_key col ?xs \<noteq> []" by (rule grouped_nonempty)
  hence "row_groups ba rc \<noteq> []" using rg by simp
  hence c: "1 \<le> rc" using row_groups_length [OF len] by (cases rc) auto
  from ra flag rg dist every opens a b c show ?thesis by blast
qed

text \<open>
  The batch of \<open>main\<close> with every flag cleared: no valid request, and the row groups of
  the batch of \<open>main\<close>.
\<close>

theorem row_aliaser_takes_every_entry_witness:
  "BATCHSIZE \<le> length invalid_batch
   \<and> valid_requests invalid_batch = []
   \<and> list_all2 same_address invalid_batch main_batch
   \<and> (\<exists>ba rc. row_aliaser 0 invalid_batch = Inr (ba, rc)
        \<and> row_aliaser 0 main_batch = Inr (ba, rc)
        \<and> row_groups ba rc = [((0, 0, 1), [6, 3]), ((0, 0, 2), [5]), ((0, 0, 4), [4]),
             ((2, 1, 2), [2])]
        \<and> length (members (row_groups ba rc)) = BATCHSIZE \<and> 1 \<le> rc)"
proof -
  have h: "BATCHSIZE \<le> length invalid_batch" by code_simp
  have v: "valid_requests invalid_batch = []" by code_simp
  have s: "list_all2 same_address invalid_batch main_batch" by code_simp
  have g: "grouped req_key col (take BATCHSIZE invalid_batch) =
      [((0, 0, 1), [6, 3]), ((0, 0, 2), [5]), ((0, 0, 4), [4]), ((2, 1, 2), [2])]"
    by code_simp
  from row_aliaser_takes_every_entry [OF h, of 0] obtain ba rc where
    "row_aliaser 0 invalid_batch = Inr (ba, rc)"
    "\<forall>batch2. list_all2 same_address invalid_batch batch2
        \<longrightarrow> row_aliaser 0 batch2 = Inr (ba, rc)"
    "row_groups ba rc = grouped req_key col (take BATCHSIZE invalid_batch)"
    "length (members (row_groups ba rc)) = BATCHSIZE" "1 \<le> rc" by blast
  with h v s g show ?thesis by auto
qed

text \<open>
  C3 as the specification states it fails on that batch: none of its requests is valid,
  and it leaves four row groups, not zero.
\<close>

theorem invalid_entries_open_row_groups:
  "valid_requests invalid_batch = []
   \<and> scheduled_row_groups 0 invalid_batch
       = Inr [((0, 0, 1), [6, 3]), ((0, 0, 2), [5]), ((0, 0, 4), [4]), ((2, 1, 2), [2])]
   \<and> scheduled_row_groups 0 invalid_batch \<noteq> Inr []"
proof -
  have v: "valid_requests invalid_batch = []" by code_simp
  have g: "scheduled_row_groups 0 invalid_batch
       = Inr [((0, 0, 1), [6, 3]), ((0, 0, 2), [5]), ((0, 0, 4), [4]), ((2, 1, 2), [2])]"
    by code_simp
  from v g show ?thesis by simp
qed

text \<open>
  C4. The bank conflict grouper groups the identifiers of the row requests by bank group
  and bank.
\<close>

theorem bank_grouper_queues:
  assumes "row_counter \<le> length batch_aliased" and "row_counter \<le> BATCHSIZE"
  shows "\<exists>cf bc. bank_grouper junk batch_aliased row_counter = Inr (cf, bc)
           \<and> bank_queues cf bc = grouped bank_key r_id (take row_counter batch_aliased)
           \<and> distinct (map fst (bank_queues cf bc))"
proof -
  from bank_grouper_inv [OF assms, where junk = junk] obtain cf bc where
    bg: "bank_grouper junk batch_aliased row_counter = Inr (cf, bc)" and
    bi: "bank_inv batch_aliased row_counter row_counter cf bc" by blast
  from bi have q: "bank_queues cf bc = grouped bank_key r_id (take row_counter batch_aliased)"
    by (simp add: bank_inv_def)
  hence "distinct (map fst (bank_queues cf bc))" by (simp add: distinct_grouped)
  with bg q show ?thesis by blast
qed

text \<open>The four row requests of the batch of \<open>main\<close>: two bank queues.\<close>

theorem bank_grouper_queues_witness:
  "4 \<le> length main_aliased \<and> 4 \<le> BATCHSIZE
   \<and> (\<exists>cf bc. bank_grouper 0 main_aliased 4 = Inr (cf, bc)
        \<and> bank_queues cf bc = [((0, 0), [1, 2, 3]), ((2, 1), [4])])"
proof -
  have h1: "4 \<le> length main_aliased" by code_simp
  have h2: "4 \<le> BATCHSIZE" by code_simp
  have g: "grouped bank_key r_id (take 4 main_aliased) = [((0, 0), [1, 2, 3]), ((2, 1), [4])]"
    by code_simp
  from bank_grouper_queues [OF h1 h2, of 0] h1 h2 g show ?thesis by auto
qed

text \<open>
  C5, on the batch of \<open>main\<close>: four row groups and two bank queues as the claim lists them;
  the text written ends with the header \<open>SCHEDULE:\<close>, and no command follows it.
\<close>

theorem main_schedules_nothing:
  "scheduled_row_groups junk main_batch
     = Inr [((0, 0, 1), [6, 3]), ((0, 0, 2), [5]), ((0, 0, 4), [4]), ((2, 1, 2), [2])]
   \<and> scheduled_bank_queues junk main_batch = Inr [((0, 0), [1, 2, 3]), ((2, 1), [4])]
   \<and> map_sum id stdout_of (main junk) = Inr
       ''ALIASED BATCH\<newline>ID 1: Bank Group 0 Bank 0 Row 1 -> Columns: 6 3 \<newline>ID 2: Bank Group 0 Bank 0 Row 2 -> Columns: 5 \<newline>ID 3: Bank Group 0 Bank 0 Row 4 -> Columns: 4 \<newline>ID 4: Bank Group 2 Bank 1 Row 2 -> Columns: 2 \<newline>BANK REQUESTS BATCH\<newline>1: Bank Group 0 Bank 0 Row(s) 1 2 3 \<newline>2: Bank Group 2 Bank 1 Row(s) 4 \<newline>SCHEDULE:\<newline>''"
  by code_simp

text \<open>
  C6, as the code has it. The row groups hold exactly the first \<open>BATCHSIZE\<close> requests of
  the batch, valid or not, each once and under its own key, and no two row groups share
  a key; the bank queues hold exactly the identifiers of the row groups, each once, and
  no two bank queues share a key.
\<close>

theorem partition_of_all_entries:
  assumes "BATCHSIZE \<le> length req_batch"
  shows "\<exists>r. scheduler junk req_batch = Inr r
           \<and> mset (members (row_groups (aliased_of r) (row_counter_of r)))
               = mset (map (\<lambda>rq. (req_key rq, col rq)) (take BATCHSIZE req_batch))
           \<and> distinct (map fst (row_groups (aliased_of r) (row_counter_of r)))
           \<and> mset (concat (map snd (bank_queues (conflicts_of r) (bank_counter_of r))))
               = mset (row_ids (aliased_of r) (row_counter_of r))
           \<and> distinct (row_ids (aliased_of r) (row_counter_of r))
           \<and> distinct (map fst (bank_queues (conflicts_of r) (bank_counter_of r)))"
proof -
  from scheduler_inv [OF assms, where junk = junk] obtain r :: outcome where
    s: "scheduler junk req_batch = Inr r" and
    ai: "alias_inv req_batch BATCHSIZE (aliased_of r) (row_counter_of r)" and
    bi: "bank_inv (aliased_of r) (row_counter_of r) (row_counter_of r)
           (conflicts_of r) (bank_counter_of r)"
    by blast
  define ba rc cf bc where "ba = aliased_of r" and "rc = row_counter_of r"
    and "cf = conflicts_of r" and "bc = bank_counter_of r"
  note ai = ai [folded ba_def rc_def] and bi = bi [folded ba_def rc_def cf_def bc_def]
  from ai have rg: "row_groups ba rc = grouped req_key col (take BATCHSIZE req_batch)"
    by (simp add: alias_inv_def)
  from bi have bq: "bank_queues cf bc = grouped bank_key r_id (take rc ba)"
    by (simp add: bank_inv_def)
  have a: "mset (members (row_groups ba rc))
             = mset (map (\<lambda>rq. (req_key rq, col rq)) (take BATCHSIZE req_batch))"
    unfolding rg by (rule members_grouped)
  have b: "distinct (map fst (row_groups ba rc))" unfolding rg by (rule distinct_grouped)
  have "mset (map snd (members (bank_queues cf bc)))
          = mset (map snd (map (\<lambda>e. (bank_key e, r_id e)) (take rc ba)))"
    unfolding bq mset_map by (simp add: members_grouped)
  hence c: "mset (concat (map snd (bank_queues cf bc))) = mset (row_ids ba rc)"
    by (simp add: snd_members row_ids_def comp_def)
  have d: "distinct (row_ids ba rc)"
    unfolding alias_inv_ids [OF ai] by (rule distinct_ids)
  have e: "distinct (map fst (bank_queues cf bc))" unfolding bq by (rule distinct_grouped)
  from s a b c d e show ?thesis
    unfolding ba_def rc_def cf_def bc_def by blast
qed

text \<open>The batch of \<open>main\<close> with the flag of its third request cleared.\<close>

theorem partition_of_all_entries_witness:
  "BATCHSIZE \<le> length mixed_batch
   \<and> (\<exists>r. scheduler 0 mixed_batch = Inr r
        \<and> mset (members (row_groups (aliased_of r) (row_counter_of r)))
            = mset [((0, 0, 1), 6), ((0, 0, 2), 5), ((0, 0, 1), 3), ((0, 0, 4), 4),
                ((2, 1, 2), 2)]
        \<and> mset (concat (map snd (bank_queues (conflicts_of r) (bank_counter_of r))))
            = mset (row_ids (aliased_of r) (row_counter_of r)))"
proof -
  have h: "BATCHSIZE \<le> length mixed_batch" by code_simp
  have g: "map (\<lambda>rq. (req_key rq, col rq)) (take BATCHSIZE mixed_batch)
      = [((0, 0, 1), 6), ((0, 0, 2), 5), ((0, 0, 1), 3), ((0, 0, 4), 4), ((2, 1, 2), 2)]"
    by code_simp
  from partition_of_all_entries [OF h, of 0] h g show ?thesis by auto
qed

text \<open>
  C6 as the specification states it fails on that batch: the row groups hold five
  columns, the column 3 of the invalid request among them, against four valid requests.
\<close>

theorem invalid_entry_in_row_group:
  "map_sum id members (scheduled_row_groups 0 mixed_batch)
     = Inr [((0, 0, 1), 6), ((0, 0, 1), 3), ((0, 0, 2), 5), ((0, 0, 4), 4), ((2, 1, 2), 2)]
   \<and> map (\<lambda>rq. (req_key rq, col rq)) (valid_requests mixed_batch)
     = [((0, 0, 1), 6), ((0, 0, 2), 5), ((0, 0, 4), 4), ((2, 1, 2), 2)]
   \<and> map_sum id (\<lambda>gs. mset (members gs)) (scheduled_row_groups 0 mixed_batch)
     \<noteq> Inr (mset (map (\<lambda>rq. (req_key rq, col rq)) (valid_requests mixed_batch)))"
proof -
  have a: "scheduled_row_groups 0 mixed_batch
     = Inr [((0, 0, 1), [6, 3]), ((0, 0, 2), [5]), ((0, 0, 4), [4]), ((2, 1, 2), [2])]"
    by code_simp
  have b: "map (\<lambda>rq. (req_key rq, col rq)) (valid_requests mixed_batch)
     = [((0, 0, 1), 6), ((0, 0, 2), 5), ((0, 0, 4), 4), ((2, 1, 2), 2)]"
    by code_simp
  show ?thesis unfolding a b by (simp add: members_def)
qed

text \<open>
  C7, as the code has it. No call of \<open>scheduler\<close> ends in \<open>CapacityExceeded\<close> or in
  \<open>InvalidRequest\<close>. A batch of \<open>BATCHSIZE\<close> requests or more is scheduled, and as its
  first \<open>BATCHSIZE\<close> requests alone are: the requests behind them are not read. No
  request is rejected, whatever the sign of its fields: the row groups are the grouping
  of all \<open>BATCHSIZE\<close> requests, each under its own bank group, bank and row, and the bank
  queues are the grouping of all row groups.
\<close>

theorem scheduler_has_no_error_result:
  "scheduler junk req_batch \<noteq> Inl CapacityExceeded
   \<and> scheduler junk req_batch \<noteq> Inl InvalidRequest
   \<and> (BATCHSIZE \<le> length req_batch \<longrightarrow>
        (\<exists>r. scheduler junk req_batch = Inr r
           \<and> row_groups (aliased_of r) (row_counter_of r)
               = grouped req_key col (take BATCHSIZE req_batch)
           \<and> (\<forall>i<BATCHSIZE. \<exists>cs. (req_key (req_batch ! i), cs)
                   \<in> set (row_groups (aliased_of r) (row_counter_of r))
                 \<and> col (req_batch ! i) \<in> set cs)
           \<and> mset (members (row_groups (aliased_of r) (row_counter_of r)))
               = mset (map (\<lambda>rq. (req_key rq, col rq)) (take BATCHSIZE req_batch))
           \<and> bank_queues (conflicts_of r) (bank_counter_of r)
               = grouped bank_key r_id (take (row_counter_of r) (aliased_of r)))
        \<and> scheduler junk req_batch = scheduler junk (take BATCHSIZE req_batch))"
proof (intro conjI impI)
  show "scheduler junk req_batch \<noteq> Inl CapacityExceeded"
    using scheduler_error [of junk req_batch CapacityExceeded] by auto
  show "scheduler junk req_batch \<noteq> Inl InvalidRequest"
    using scheduler_error [of junk req_batch InvalidRequest] by auto
next
  assume h: "BATCHSIZE \<le> length req_batch"
  from h show "scheduler junk req_batch = scheduler junk (take BATCHSIZE req_batch)"
    by (rule scheduler_take)
  let ?xs = "take BATCHSIZE req_batch"
  from scheduler_inv [OF h, where junk = junk] obtain r :: outcome where
    s: "scheduler junk req_batch = Inr r" and
    ai: "alias_inv req_batch BATCHSIZE (aliased_of r) (row_counter_of r)" and
    bi: "bank_inv (aliased_of r) (row_counter_of r) (row_counter_of r)
           (conflicts_of r) (bank_counter_of r)"
    by blast
  from ai have rg: "row_groups (aliased_of r) (row_counter_of r) = grouped req_key col ?xs"
    by (simp add: alias_inv_def)
  from bi have bq: "bank_queues (conflicts_of r) (bank_counter_of r)
      = grouped bank_key r_id (take (row_counter_of r) (aliased_of r))"
    by (simp add: bank_inv_def)
  have ms: "mset (members (row_groups (aliased_of r) (row_counter_of r)))
      = mset (map (\<lambda>rq. (req_key rq, col rq)) ?xs)"
    unfolding rg by (rule members_grouped)
  have every: "\<forall>i<BATCHSIZE. \<exists>cs. (req_key (req_batch ! i), cs)
                   \<in> set (row_groups (aliased_of r) (row_counter_of r))
                 \<and> col (req_batch ! i) \<in> set cs"
  proof (intro allI impI)
    fix i assume i: "i < BATCHSIZE"
    hence "?xs ! i \<in> set ?xs" using h by (intro nth_mem) simp
    from grouped_entry [OF this, of req_key col] i
    show "\<exists>cs. (req_key (req_batch ! i), cs)
              \<in> set (row_groups (aliased_of r) (row_counter_of r))
            \<and> col (req_batch ! i) \<in> set cs" unfolding rg by simp
  qed
  from s rg every ms bq
  show "\<exists>r. scheduler junk req_batch = Inr r
           \<and> row_groups (aliased_of r) (row_counter_of r)
               = grouped req_key col (take BATCHSIZE req_batch)
           \<and> (\<forall>i<BATCHSIZE. \<exists>cs. (req_key (req_batch ! i), cs)
                   \<in> set (row_groups (aliased_of r) (row_counter_of r))
                 \<and> col (req_batch ! i) \<in> set cs)
           \<and> mset (members (row_groups (aliased_of r) (row_counter_of r)))
               = mset (map (\<lambda>rq. (req_key rq, col rq)) (take BATCHSIZE req_batch))
           \<and> bank_queues (conflicts_of r) (bank_counter_of r)
               = grouped bank_key r_id (take (row_counter_of r) (aliased_of r))"
    by blast
qed

text \<open>
  Six valid requests: the call returns what it returns on the first five. A request with
  negative fields: it opens the row group of its own key and the bank queue of its own
  bank.
\<close>

theorem scheduler_has_no_error_result_witness:
  "BATCHSIZE \<le> length six_batch \<and> length (valid_requests six_batch) = 6
   \<and> take BATCHSIZE six_batch = main_batch
   \<and> (\<exists>r. scheduler 0 six_batch = Inr r) \<and> scheduler 0 six_batch = scheduler 0 main_batch
   \<and> BATCHSIZE \<le> length negative_batch
   \<and> (\<exists>r. scheduler 0 negative_batch = Inr r
        \<and> row_groups (aliased_of r) (row_counter_of r)
            = [((- 1, - 2, - 3), [- 4]), ((0, 0, 2), [5]), ((0, 0, 1), [3]), ((0, 0, 4), [4]),
               ((2, 1, 2), [2])]
        \<and> bank_queues (conflicts_of r) (bank_counter_of r)
            = [((- 1, - 2), [1]), ((0, 0), [2, 3, 4]), ((2, 1), [5])])"
proof -
  have h: "BATCHSIZE \<le> length six_batch" by code_simp
  have v: "length (valid_requests six_batch) = 6" by code_simp
  have t: "take BATCHSIZE six_batch = main_batch" by code_simp
  have n: "BATCHSIZE \<le> length negative_batch" by code_simp
  have g: "grouped req_key col (take BATCHSIZE negative_batch)
      = [((- 1, - 2, - 3), [- 4]), ((0, 0, 2), [5]), ((0, 0, 1), [3]), ((0, 0, 4), [4]),
         ((2, 1, 2), [2])]" by code_simp
  have b: "scheduled_bank_queues 0 negative_batch
      = Inr [((- 1, - 2), [1]), ((0, 0), [2, 3, 4]), ((2, 1), [5])]" by code_simp
  from scheduler_has_no_error_result [of 0 six_batch] h
  have e: "\<exists>r. scheduler 0 six_batch = Inr r"
    and q: "scheduler 0 six_batch = scheduler 0 (take BATCHSIZE six_batch)" by blast+
  from scheduler_has_no_error_result [of 0 negative_batch] n
  obtain r :: outcome where r: "scheduler 0 negative_batch = Inr r"
    "row_groups (aliased_of r) (row_counter_of r)
       = grouped req_key col (take BATCHSIZE negative_batch)" by blast
  from b r(1) have "bank_queues (conflicts_of r) (bank_counter_of r)
      = [((- 1, - 2), [1]), ((0, 0), [2, 3, 4]), ((2, 1), [5])]"
    by (simp add: scheduled_bank_queues_def)
  with r g have m: "\<exists>r. scheduler 0 negative_batch = Inr r
        \<and> row_groups (aliased_of r) (row_counter_of r)
            = [((- 1, - 2, - 3), [- 4]), ((0, 0, 2), [5]), ((0, 0, 1), [3]), ((0, 0, 4), [4]),
               ((2, 1, 2), [2])]
        \<and> bank_queues (conflicts_of r) (bank_counter_of r)
            = [((- 1, - 2), [1]), ((0, 0), [2, 3, 4]), ((2, 1), [5])]" by auto
  from h v t e q [unfolded t] n m show ?thesis by blast
qed

text \<open>
  C7 as the specification states it fails twice: a batch of six valid requests does not
  end in \<open>CapacityExceeded\<close>, and a batch with a request of negative fields does not end
  in \<open>InvalidRequest\<close>; the negative request opens a row group.
\<close>

theorem no_capacity_or_sign_check:
  "length (valid_requests six_batch) = 6 \<and> BATCHSIZE = 5
   \<and> scheduled_row_groups 0 six_batch
       = Inr [((0, 0, 1), [6, 3]), ((0, 0, 2), [5]), ((0, 0, 4), [4]), ((2, 1, 2), [2])]
   \<and> scheduler 0 six_batch \<noteq> Inl CapacityExceeded
   \<and> scheduled_row_groups 0 negative_batch
       = Inr [((- 1, - 2, - 3), [- 4]), ((0, 0, 2), [5]), ((0, 0, 1), [3]), ((0, 0, 4), [4]),
              ((2, 1, 2), [2])]
   \<and> scheduler 0 negative_batch \<noteq> Inl InvalidRequest"
proof -
  have a: "length (valid_requests six_batch) = 6" by code_simp
  have b: "BATCHSIZE = 5" by (rule BATCHSIZE_def)
  have c: "scheduled_row_groups 0 six_batch
       = Inr [((0, 0, 1), [6, 3]), ((0, 0, 2), [5]), ((0, 0, 4), [4]), ((2, 1, 2), [2])]"
    by code_simp
  have d: "scheduled_row_groups 0 negative_batch
       = Inr [((- 1, - 2, - 3), [- 4]), ((0, 0, 2), [5]), ((0, 0, 1), [3]), ((0, 0, 4), [4]),
              ((2, 1, 2), [2])]"
    by code_simp
  from c have e: "scheduler 0 six_batch \<noteq> Inl CapacityExceeded"
    by (auto simp: scheduled_row_groups_def)
  from d have f: "scheduler 0 negative_batch \<noteq> Inl InvalidRequest"
    by (auto simp: scheduled_row_groups_def)
  from a b c d e f show ?thesis by blast
qed

text \<open>
  C8. Every loop of \<open>scheduler\<close> is a function with a termination proof; over a whole call
  the loop bodies run at most \<open>4 * BATCHSIZE * BATCHSIZE + 2 * BATCHSIZE\<close> times, and a call
  on a batch of \<open>BATCHSIZE\<close> requests or more returns.
\<close>

theorem scheduler_terminates_bounded:
  "T_scheduler junk req_batch \<le> 4 * BATCHSIZE * BATCHSIZE + 2 * BATCHSIZE
   \<and> (BATCHSIZE \<le> length req_batch \<longrightarrow> (\<exists>r. scheduler junk req_batch = Inr r))"
proof (intro conjI impI)
  show "T_scheduler junk req_batch \<le> 4 * BATCHSIZE * BATCHSIZE + 2 * BATCHSIZE"
    by (rule T_scheduler_bound)
  assume h: "BATCHSIZE \<le> length req_batch"
  from scheduler_inv [OF h, where junk = junk]
  show "\<exists>r. scheduler junk req_batch = Inr r" by blast
qed

text \<open>The batch of \<open>main\<close>: 34 runs of a loop body.\<close>

theorem scheduler_terminates_bounded_witness:
  "BATCHSIZE \<le> length main_batch \<and> T_scheduler 0 main_batch = 34
   \<and> T_scheduler 0 main_batch \<le> 4 * BATCHSIZE * BATCHSIZE + 2 * BATCHSIZE
   \<and> (\<exists>r. scheduler 0 main_batch = Inr r)"
proof -
  have h: "BATCHSIZE \<le> length main_batch" by code_simp
  have t: "T_scheduler 0 main_batch = 34" by code_simp
  from scheduler_terminates_bounded [of 0 main_batch] h t show ?thesis by simp
qed

text \<open>
  C9. Two batches whose requests differ at most in their \<open>valid\<close> flags leave the same
  arrays, the same counters and the same text behind.
\<close>

theorem valid_flag_has_no_influence:
  assumes "list_all2 same_address batch1 batch2"
  shows "scheduler junk batch1 = scheduler junk batch2"
  using assms by (rule scheduler_same_address)

text \<open>The batch of \<open>main\<close>, with every flag set and with every flag cleared.\<close>

theorem valid_flag_has_no_influence_witness:
  "list_all2 same_address main_batch invalid_batch
   \<and> map valid main_batch = [1, 1, 1, 1, 1] \<and> map valid invalid_batch = [0, 0, 0, 0, 0]
   \<and> scheduler 0 main_batch = scheduler 0 invalid_batch"
proof -
  have h: "list_all2 same_address main_batch invalid_batch" by code_simp
  have a: "map valid main_batch = [1, 1, 1, 1, 1]" by code_simp
  have b: "map valid invalid_batch = [0, 0, 0, 0, 0]" by code_simp
  from valid_flag_has_no_influence [OF h, of 0] h a b show ?thesis by simp
qed

text \<open>
  C10. On a batch of \<open>BATCHSIZE\<close> requests or more no access leaves an array: the call does
  not end in \<open>OutOfBounds\<close>, and the counters it leaves behind are within the sizes of the
  arrays they index.
\<close>

theorem array_indices_in_bounds:
  assumes "BATCHSIZE \<le> length req_batch"
  shows "\<exists>r. scheduler junk req_batch = Inr r
           \<and> length (aliased_of r) = BATCHSIZE
           \<and> row_counter_of r \<le> BATCHSIZE
           \<and> (\<forall>n<row_counter_of r.
                 length (r_col (aliased_of r ! n)) = BATCHSIZE
                 \<and> 0 \<le> r_requests (aliased_of r ! n)
                 \<and> r_requests (aliased_of r ! n) \<le> int BATCHSIZE
                 \<and> r_id (aliased_of r ! n) = int n + 1)
           \<and> length (conflicts_of r) = row_counter_of r
           \<and> bank_counter_of r \<le> row_counter_of r
           \<and> (\<forall>n<bank_counter_of r.
                 length (b_rows (conflicts_of r ! n)) = BATCHSIZE
                 \<and> 0 \<le> b_requests (conflicts_of r ! n)
                 \<and> b_requests (conflicts_of r ! n) \<le> int BATCHSIZE)"
proof -
  from scheduler_inv [OF assms, where junk = junk] obtain r :: outcome where
    s: "scheduler junk req_batch = Inr r" and
    ai: "alias_inv req_batch BATCHSIZE (aliased_of r) (row_counter_of r)" and
    bi: "bank_inv (aliased_of r) (row_counter_of r) (row_counter_of r)
           (conflicts_of r) (bank_counter_of r)"
    by blast
  from ai have a: "length (aliased_of r) = BATCHSIZE" "row_counter_of r \<le> BATCHSIZE"
    "\<forall>n<row_counter_of r.
        length (r_col (aliased_of r ! n)) = BATCHSIZE
        \<and> 0 \<le> r_requests (aliased_of r ! n)
        \<and> r_requests (aliased_of r ! n) \<le> int BATCHSIZE
        \<and> r_id (aliased_of r ! n) = int n + 1"
    by (auto simp: alias_inv_def)
  from bi have b: "length (conflicts_of r) = row_counter_of r"
    "bank_counter_of r \<le> row_counter_of r"
    "\<forall>n<bank_counter_of r.
        length (b_rows (conflicts_of r ! n)) = BATCHSIZE
        \<and> 0 \<le> b_requests (conflicts_of r ! n)
        \<and> b_requests (conflicts_of r ! n) \<le> int BATCHSIZE"
    by (auto simp: bank_inv_def)
  from s a b show ?thesis by blast
qed

text \<open>The batch with negative fields: five row groups, the most a batch can open.\<close>

theorem array_indices_in_bounds_witness:
  "BATCHSIZE \<le> length negative_batch
   \<and> (\<exists>r. scheduler 0 negative_batch = Inr r
        \<and> row_counter_of r \<le> BATCHSIZE \<and> bank_counter_of r \<le> row_counter_of r
        \<and> length (aliased_of r) = BATCHSIZE \<and> length (conflicts_of r) = row_counter_of r)"
proof -
  have h: "BATCHSIZE \<le> length negative_batch" by code_simp
  from array_indices_in_bounds [OF h, of 0] h show ?thesis by auto
qed

end
